theory Spec2Isabelle
  imports Complex_Main
begin

section \<open>The step scheduler of steploop.ts\<close>

text \<open>
  The class \<open>StepLoop\<close> of \<^verbatim>\<open>src/steploop.ts\<close> is embedded as a record of its private
  fields and one HOL function per method. A method mutates the object, so its model takes
  the state and returns the updated one; a method that calls a hook of the host can be left
  by an exception, so its model returns how the call ended together with the state as the
  call left it (what was assigned before the throw stays assigned).

  Conventions:
  \<^item> JavaScript numbers that count (the step number, the lifespan) are \<open>nat\<close> and \<open>int\<close>;
    times and rates are \<open>real\<close>, an idealisation of IEEE doubles without rounding. The
    rate is taken non-zero, as documented: \<open>1000 / 0\<close> is \<open>Infinity\<close> in JavaScript and
    \<open>0\<close> in HOL. \<^verbatim>\<open>undefined\<close> is \<open>None\<close>.
  \<^item> The platform (clock, timers, animation frames, console) is part of the state: the
    record \<open>world\<close> extends the object with it.
  \<^item> A hook override is a function of the host: it reads the object through the state it
    is given, returns or throws, and leaves a new state of the host's own data, as the
    hosts of the repository do (the demo page and the tests read \<^verbatim>\<open>get_step()\<close>,
    \<^verbatim>\<open>get_lifespan()\<close>, \<^verbatim>\<open>get_real_sps()\<close> in their hooks and call the control methods from
    outside). Hooks that call the control methods of the loop they run in are outside the
    model.
  \<^item> The clock stands still during one task (a method call or a fired callback) and moves
    between tasks.
\<close>

subsection \<open>Values and completions\<close>

type_synonym exn = string

datatype completion = Done | Raised exn

datatype hook_result = Returns | Throws exn

text \<open>Truthiness of \<^verbatim>\<open>number | undefined\<close>: \<open>undefined\<close> and \<open>0\<close> are falsy.\<close>

definition truthy_number :: "int option \<Rightarrow> bool" where
  "truthy_number v = (case v of None \<Rightarrow> False | Some n \<Rightarrow> n \<noteq> 0)"

definition truthy_handle :: "nat option \<Rightarrow> bool" where
  "truthy_handle v = (case v of None \<Rightarrow> False | Some n \<Rightarrow> n \<noteq> 0)"

text \<open>\<^verbatim>\<open>x || 0\<close> on a \<^verbatim>\<open>number | undefined\<close>.\<close>

definition or_zero :: "int option \<Rightarrow> int" where
  "or_zero v = (case v of None \<Rightarrow> 0 | Some n \<Rightarrow> if n \<noteq> 0 then n else 0)"

subsection \<open>The object and its platform\<close>

record steploop =
  step_num :: nat
  lifespan :: "int option"
  sps :: real
  interval :: real
  startTime :: real
  lastStepTime :: real
  lastStepDuration :: real
  timeoutId :: "nat option"
  initialized :: bool
  running :: bool
  paused :: bool
  kill :: bool
  RAFAvailable :: bool
  RAFActive :: bool
  RAFId :: "nat option"

text \<open>
  A pending callback of the platform. \<open>Timeout i t d\<close> is a timer with handle \<open>i\<close>, set at
  time \<open>t\<close> with delay \<open>d\<close>; its callback is \<^verbatim>\<open>() => this._run(performance.now())\<close>.
  \<open>Frame i\<close> is an animation-frame request with handle \<open>i\<close>; its callback is
  \<^verbatim>\<open>(nextTimestamp) => this._run(nextTimestamp)\<close>. The loop registers no other callback.
\<close>

datatype tick = Timeout nat real real | Frame nat

datatype hook_name = Initial | Background | Before | Step | After | Final | On_pause | On_play

text \<open>
  \<open>now\<close> is \<^verbatim>\<open>performance.now()\<close>; \<open>pending\<close> the callbacks registered and not yet fired or
  cancelled; \<open>next_handle\<close> the next handle the platform gives out (handles start at 1);
  \<open>console\<close> the calls of \<^verbatim>\<open>console.error\<close>; \<open>unhandled\<close> the rejected promises whose
  \<^verbatim>\<open>catch\<close> handler has not run yet; \<open>host\<close> the data of the host application.
  \<open>trace\<close> is an observer's log: every hook invocation, with the value \<^verbatim>\<open>get_step()\<close>
  has inside it.
\<close>

record 'h world = steploop +
  now :: real
  pending :: "tick list"
  next_handle :: nat
  console :: "(string \<times> exn) list"
  unhandled :: "(string \<times> exn) list"
  trace :: "(hook_name \<times> nat) list"
  host :: 'h

type_synonym 'h hook = "'h world \<Rightarrow> hook_result \<times> 'h"

record 'h hooks =
  initial :: "'h hook"
  background :: "'h hook"
  before :: "'h hook"
  step :: "'h hook"
  after :: "'h hook"
  final :: "'h hook"
  on_pause :: "'h hook"
  on_play :: "'h hook"

text \<open>The base class: every hook returns at once.\<close>

definition base_hooks :: "'h hooks" where
  "base_hooks =
     \<lparr>initial = (\<lambda>w. (Returns, host w)), background = (\<lambda>w. (Returns, host w)),
      before = (\<lambda>w. (Returns, host w)), step = (\<lambda>w. (Returns, host w)),
      after = (\<lambda>w. (Returns, host w)), final = (\<lambda>w. (Returns, host w)),
      on_pause = (\<lambda>w. (Returns, host w)), on_play = (\<lambda>w. (Returns, host w))\<rparr>"

type_synonym 'h task = "'h world \<Rightarrow> completion \<times> 'h world"

subsection \<open>Statements\<close>

text \<open>A statement that cannot throw.\<close>

definition assign :: "('h world \<Rightarrow> 'h world) \<Rightarrow> 'h task" where
  "assign f w = (Done, f w)"

text \<open>Statements in sequence: a throw leaves the rest undone.\<close>

fun sequence :: "'h task list \<Rightarrow> 'h task" where
  "sequence [] w = (Done, w)"
| "sequence (t # ts) w =
     (case t w of (Done, w') \<Rightarrow> sequence ts w' | (Raised x, w') \<Rightarrow> (Raised x, w'))"

text \<open>\<^verbatim>\<open>this.hook()\<close>\<close>

definition call_hook :: "hook_name \<Rightarrow> 'h hook \<Rightarrow> 'h task" where
  "call_hook name h w =
     (case h w of
        (Returns, s) \<Rightarrow> (Done, w\<lparr>trace := trace w @ [(name, step_num w)], host := s\<rparr>)
      | (Throws x, s) \<Rightarrow> (Raised x, w\<lparr>trace := trace w @ [(name, step_num w)], host := s\<rparr>))"

text \<open>\<^verbatim>\<open>try { body } catch (error) { console.error(label, error); }\<close>\<close>

definition try_catch :: "'h task \<Rightarrow> string \<Rightarrow> 'h task" where
  "try_catch body label w =
     (case body w of
        (Done, w') \<Rightarrow> (Done, w')
      | (Raised x, w') \<Rightarrow> (Done, w'\<lparr>console := console w' @ [(label, x)]\<rparr>))"

text \<open>
  \<^verbatim>\<open>this.hook().catch(error => { console.error(label, error); })\<close> for an \<^verbatim>\<open>async\<close> hook:
  the call returns a promise; a failure of the hook rejects it, and the handler runs after
  the current task.
\<close>

definition call_async :: "hook_name \<Rightarrow> 'h hook \<Rightarrow> string \<Rightarrow> 'h task" where
  "call_async name h label w =
     (case h w of
        (Returns, s) \<Rightarrow> (Done, w\<lparr>trace := trace w @ [(name, step_num w)], host := s\<rparr>)
      | (Throws x, s) \<Rightarrow>
          (Done, w\<lparr>unhandled := unhandled w @ [(label, x)],
                   trace := trace w @ [(name, step_num w)], host := s\<rparr>))"

subsection \<open>Platform primitives\<close>

fun is_timeout :: "nat \<Rightarrow> tick \<Rightarrow> bool" where
  "is_timeout i (Timeout j t d) = (i = j)"
| "is_timeout i (Frame j) = False"

fun is_frame :: "nat \<Rightarrow> tick \<Rightarrow> bool" where
  "is_frame i (Timeout j t d) = False"
| "is_frame i (Frame j) = (i = j)"

definition setTimeout :: "real \<Rightarrow> 'h world \<Rightarrow> nat \<times> 'h world" where
  "setTimeout delay w =
     (next_handle w,
      w\<lparr>pending := pending w @ [Timeout (next_handle w) (now w) delay],
        next_handle := Suc (next_handle w)\<rparr>)"

definition clearTimeout :: "nat \<Rightarrow> 'h world \<Rightarrow> 'h world" where
  "clearTimeout i w = w\<lparr>pending := filter (\<lambda>t. \<not> is_timeout i t) (pending w)\<rparr>"

definition requestAnimationFrame :: "'h world \<Rightarrow> nat \<times> 'h world" where
  "requestAnimationFrame w =
     (next_handle w,
      w\<lparr>pending := pending w @ [Frame (next_handle w)], next_handle := Suc (next_handle w)\<rparr>)"

definition cancelAnimationFrame :: "nat \<Rightarrow> 'h world \<Rightarrow> 'h world" where
  "cancelAnimationFrame i w = w\<lparr>pending := filter (\<lambda>t. \<not> is_frame i t) (pending w)\<rparr>"

subsection \<open>The constructor and the accessors\<close>

text \<open>
  \<^verbatim>\<open>new StepLoop(sps, lifespan, RAF)\<close> on a platform where \<^verbatim>\<open>requestAnimationFrame\<close> is
  defined or not (\<open>raf\<close>), at clock reading \<open>t0\<close>, beside host data \<open>h0\<close>.
\<close>

definition new_StepLoop :: "bool \<Rightarrow> real \<Rightarrow> 'h \<Rightarrow> real \<Rightarrow> int option \<Rightarrow> bool \<Rightarrow> 'h world" where
  "new_StepLoop raf t0 h0 sps0 lifespan0 RAF =
     \<lparr>step_num = 0, lifespan = lifespan0, sps = sps0, interval = 1000 / sps0,
      startTime = 0, lastStepTime = 0, lastStepDuration = 0, timeoutId = None,
      initialized = False, running = False, paused = False, kill = False,
      RAFAvailable = raf, RAFActive = RAF, RAFId = None,
      now = t0, pending = [], next_handle = 1, console = [], unhandled = [], trace = [],
      host = h0\<rparr>"

definition is_running :: "'h world \<Rightarrow> bool" where
  "is_running w = running w"

definition is_paused :: "'h world \<Rightarrow> bool" where
  "is_paused w = paused w"

definition get_step :: "'h world \<Rightarrow> nat" where
  "get_step w = step_num w"

definition get_sps :: "'h world \<Rightarrow> real" where
  "get_sps w = sps w"

definition get_real_sps :: "'h world \<Rightarrow> real" where
  "get_real_sps w = (if lastStepDuration w = 0 then 0 else 1000 / lastStepDuration w)"

definition get_lifespan :: "'h world \<Rightarrow> int option" where
  "get_lifespan w = lifespan w"

definition set_sps :: "real \<Rightarrow> 'h world \<Rightarrow> real \<times> 'h world" where
  "set_sps r w = (r, w\<lparr>sps := r, interval := 1000 / r\<rparr>)"

definition set_use_RAF :: "bool \<Rightarrow> 'h world \<Rightarrow> bool \<times> 'h world" where
  "set_use_RAF status w = (status, w\<lparr>RAFActive := status\<rparr>)"

definition extend_lifespan :: "int option \<Rightarrow> 'h world \<Rightarrow> int option \<times> 'h world" where
  "extend_lifespan steps w =
     (if \<not> initialized w then (None, w)
      else case steps of
        None \<Rightarrow> (None, w\<lparr>lifespan := None\<rparr>)
      | Some d \<Rightarrow>
          (let l = or_zero (lifespan w) + d;
               w1 = w\<lparr>lifespan := Some l\<rparr>;
               w2 = (if kill w1 \<and> l > int (step_num w1) then w1\<lparr>kill := False\<rparr> else w1)
           in (Some l, w2)))"

subsection \<open>Scheduling\<close>

definition request_next_step :: "real \<Rightarrow> 'h world \<Rightarrow> 'h world" where
  "request_next_step timestamp w =
     (if \<not> running w then w
      else if RAFActive w \<and> RAFAvailable w then
        (case requestAnimationFrame w of (i, w') \<Rightarrow> w'\<lparr>RAFId := Some i\<rparr>)
      else
        (let nextStepTime = startTime w + real (step_num w) * interval w;
             delay = max 0 (nextStepTime - now w)
         in case setTimeout delay w of (i, w') \<Rightarrow> w'\<lparr>timeoutId := Some i\<rparr>))"

definition cancel_next_step :: "'h world \<Rightarrow> 'h world" where
  "cancel_next_step w =
     (if truthy_handle (timeoutId w) \<and> \<not> RAFActive w then
        (clearTimeout (the (timeoutId w)) w)\<lparr>timeoutId := None\<rparr>
      else if truthy_handle (RAFId w) \<and> RAFActive w then
        (cancelAnimationFrame (the (RAFId w)) w)\<lparr>RAFId := None\<rparr>
      else w)"

definition check_for_end_trigger :: "'h world \<Rightarrow> bool" where
  "check_for_end_trigger w =
     (if kill w \<or> (truthy_number (lifespan w) \<and> int (step_num w) \<ge> the (lifespan w))
      then True else False)"

subsection \<open>The life cycle\<close>

definition init :: "'h hooks \<Rightarrow> 'h task" where
  "init H =
     sequence
       [assign (\<lambda>w. w\<lparr>kill := False\<rparr>),
        assign (\<lambda>w. w\<lparr>initialized := True\<rparr>),
        assign (\<lambda>w. w\<lparr>step_num := 0\<rparr>),
        try_catch (call_hook Initial (initial H)) ''Error in initial():'']"

definition term_stage :: "'h hooks \<Rightarrow> 'h task" where
  "term_stage H =
     sequence
       [assign (\<lambda>w. w\<lparr>running := False\<rparr>),
        assign (\<lambda>w. w\<lparr>paused := False\<rparr>),
        assign cancel_next_step,
        assign (\<lambda>w. w\<lparr>kill := True\<rparr>),
        try_catch (call_hook Final (final H)) ''Error in final():'']"

definition run :: "'h hooks \<Rightarrow> real \<Rightarrow> 'h task" where
  "run H timestamp w =
     (if running w then
        (if check_for_end_trigger w then term_stage H w
         else
           sequence
             [call_async Background (background H) ''Error in background():'',
              try_catch (call_hook Before (before H)) ''Error in before():'',
              try_catch (call_hook Step (step H)) ''Error in step():'',
              try_catch (call_hook After (after H)) ''Error in after():'',
              assign (\<lambda>w. w\<lparr>step_num := step_num w + 1\<rparr>),
              assign (\<lambda>w. w\<lparr>lastStepDuration := timestamp - lastStepTime w\<rparr>),
              assign (\<lambda>w. w\<lparr>lastStepTime := timestamp\<rparr>),
              assign (request_next_step timestamp)] w)
      else (Done, w))"

definition main :: "'h hooks \<Rightarrow> 'h task" where
  "main H = sequence [init H, (\<lambda>w. run H (now w) w)]"

definition start :: "'h hooks \<Rightarrow> 'h task" where
  "start H =
     sequence
       [assign (\<lambda>w. w\<lparr>running := True\<rparr>),
        assign (\<lambda>w. w\<lparr>startTime := now w\<rparr>),
        main H]"

definition pause :: "'h hooks \<Rightarrow> 'h task" where
  "pause H w =
     (if \<not> initialized w \<or> \<not> running w \<or> kill w then (Done, w)
      else
        sequence
          [assign (\<lambda>w. w\<lparr>running := False\<rparr>),
           assign (\<lambda>w. w\<lparr>paused := True\<rparr>),
           assign cancel_next_step,
           call_hook On_pause (on_pause H)] w)"

definition play :: "'h hooks \<Rightarrow> 'h task" where
  "play H w =
     (if \<not> initialized w \<or> running w \<or> kill w then (Done, w)
      else
        sequence
          [assign (\<lambda>w. w\<lparr>running := True\<rparr>),
           assign (\<lambda>w. w\<lparr>paused := False\<rparr>),
           assign (\<lambda>w. w\<lparr>startTime := now w - real (step_num w) * interval w\<rparr>),
           call_hook On_play (on_play H),
           (\<lambda>w. run H (now w) w)] w)"

definition finish :: "'h hooks \<Rightarrow> 'h task" where
  "finish H w =
     (if \<not> initialized w \<or> kill w then (Done, w)
      else
        sequence
          [assign (\<lambda>w. w\<lparr>running := False\<rparr>),
           assign (\<lambda>w. w\<lparr>paused := False\<rparr>),
           assign (\<lambda>w. w\<lparr>kill := True\<rparr>),
           assign cancel_next_step,
           term_stage H] w)"

subsection \<open>Tasks of the event loop\<close>

text \<open>
  A timer fires once its delay has passed, a frame request at the next repaint; the
  platform forgets the callback and calls it. A handle that is not pending fires nothing.
\<close>

fun due :: "real \<Rightarrow> tick \<Rightarrow> bool" where
  "due t (Timeout j t0 d) = (t0 + d \<le> t)"
| "due t (Frame j) = True"

definition timeout_fires :: "'h hooks \<Rightarrow> nat \<Rightarrow> 'h task" where
  "timeout_fires H i w =
     (case find (is_timeout i) (pending w) of
        None \<Rightarrow> (Done, w)
      | Some t \<Rightarrow>
          if due (now w) t then run H (now w) (clearTimeout i w) else (Done, w))"

definition frame_fires :: "'h hooks \<Rightarrow> nat \<Rightarrow> real \<Rightarrow> 'h task" where
  "frame_fires H i nextTimestamp w =
     (case find (is_frame i) (pending w) of
        None \<Rightarrow> (Done, w)
      | Some t \<Rightarrow> run H nextTimestamp (cancelAnimationFrame i w))"

text \<open>After a task, the handlers of the promises rejected in it run.\<close>

definition settle :: "'h world \<Rightarrow> 'h world" where
  "settle w = w\<lparr>console := console w @ unhandled w, unhandled := []\<rparr>"

text \<open>
  What can happen to a loop: the host calls a public method (an exception that leaves the
  method ends the host's task, the object stays as the throw left it), a pending callback
  fires, or time passes.
\<close>

datatype event =
  Start | Pause | Play | Finish
| Set_sps real | Set_use_RAF bool | Extend_lifespan "int option"
| Timeout_fires nat | Frame_fires nat real
| Advance real

fun dispatch :: "'h hooks \<Rightarrow> event \<Rightarrow> 'h world \<Rightarrow> 'h world" where
  "dispatch H Start w = settle (snd (start H w))"
| "dispatch H Pause w = settle (snd (pause H w))"
| "dispatch H Play w = settle (snd (play H w))"
| "dispatch H Finish w = settle (snd (finish H w))"
| "dispatch H (Set_sps r) w = snd (set_sps r w)"
| "dispatch H (Set_use_RAF b) w = snd (set_use_RAF b w)"
| "dispatch H (Extend_lifespan d) w = snd (extend_lifespan d w)"
| "dispatch H (Timeout_fires i) w = settle (snd (timeout_fires H i w))"
| "dispatch H (Frame_fires i ts) w = settle (snd (frame_fires H i ts w))"
| "dispatch H (Advance d) w = (if 0 \<le> d then w\<lparr>now := now w + d\<rparr> else w)"

definition exec :: "'h hooks \<Rightarrow> event list \<Rightarrow> 'h world \<Rightarrow> 'h world" where
  "exec H es w = fold (dispatch H) es w"

text \<open>
  Letting the loop run: while a callback is pending, wait until the oldest one is due and
  fire it. \<open>run_until_idle H k w\<close> gives the state in which nothing is pending any more, or
  \<open>None\<close> when \<open>k\<close> firings do not reach one.
\<close>

definition next_tick :: "'h world \<Rightarrow> event list" where
  "next_tick w =
     (case pending w of
        [] \<Rightarrow> []
      | Timeout i t0 d # ts \<Rightarrow> [Advance (max 0 (t0 + d - now w)), Timeout_fires i]
      | Frame i # ts \<Rightarrow> [Frame_fires i (now w)])"

fun run_until_idle :: "'h hooks \<Rightarrow> nat \<Rightarrow> 'h world \<Rightarrow> 'h world option" where
  "run_until_idle H 0 w = (if pending w = [] then Some w else None)"
| "run_until_idle H (Suc k) w =
     (if pending w = [] then Some w else run_until_idle H k (exec H (next_tick w) w))"

subsection \<open>Observers\<close>

text \<open>The state a hook call leaves: called bare, inside \<^verbatim>\<open>try\<close>, or as a promise.\<close>

definition hooked :: "hook_name \<Rightarrow> 'h hook \<Rightarrow> 'h world \<Rightarrow> 'h world" where
  "hooked n h w = snd (call_hook n h w)"

definition guarded :: "hook_name \<Rightarrow> 'h hook \<Rightarrow> string \<Rightarrow> 'h world \<Rightarrow> 'h world" where
  "guarded n h label w = snd (try_catch (call_hook n h) label w)"

definition detached :: "hook_name \<Rightarrow> 'h hook \<Rightarrow> string \<Rightarrow> 'h world \<Rightarrow> 'h world" where
  "detached n h label w = snd (call_async n h label w)"

text \<open>
  A loop in its looping stage between two cycles, with the one callback of its next cycle
  pending; and a loop after its termination stage, with nothing pending.
\<close>

definition cycling :: "'h world \<Rightarrow> bool" where
  "cycling w = (initialized w \<and> running w \<and> \<not> kill w \<and> length (pending w) = 1)"

definition ended :: "'h world \<Rightarrow> bool" where
  "ended w = (initialized w \<and> \<not> running w \<and> \<not> paused w \<and> kill w \<and> pending w = [])"

text \<open>
  Reading the log of hook calls: the calls since the last \<^verbatim>\<open>initial()\<close>, those of them that
  are calls of \<^verbatim>\<open>before\<close>, \<^verbatim>\<open>step\<close> and \<^verbatim>\<open>after\<close>, and the three calls of cycle \<open>i\<close> as they
  should read.
\<close>

definition since_init :: "(hook_name \<times> nat) list \<Rightarrow> (hook_name \<times> nat) list" where
  "since_init tr = rev (takeWhile (\<lambda>c. fst c \<noteq> Initial) (rev tr))"

definition in_cycle :: "hook_name \<Rightarrow> bool" where
  "in_cycle n = (n = Before \<or> n = Step \<or> n = After)"

definition cycles_seen :: "(hook_name \<times> nat) list \<Rightarrow> (hook_name \<times> nat) list" where
  "cycles_seen tr = filter (\<lambda>c. in_cycle (fst c)) (since_init tr)"

definition cycle_calls :: "nat \<Rightarrow> (hook_name \<times> nat) list" where
  "cycle_calls i = [(Before, i), (Step, i), (After, i)]"

text \<open>The log since the last \<^verbatim>\<open>initial()\<close> holds the calls of cycles \<open>0, 1, ...\<close> up to the step number.\<close>

definition in_order :: "'h world \<Rightarrow> bool" where
  "in_order w = (cycles_seen (trace w) = concat (map cycle_calls [0..<step_num w]))"

text \<open>Events that keep the rate positive, as the constructor and \<^verbatim>\<open>set_sps\<close> document it.\<close>

fun rate_ok :: "event \<Rightarrow> bool" where
  "rate_ok (Set_sps r) = (0 < r)"
| "rate_ok e = True"

subsection \<open>Example loops\<close>

text \<open>
  \<^verbatim>\<open>new StepLoop(60, lifespan)\<close> of the base class, where \<^verbatim>\<open>requestAnimationFrame\<close> is not
  defined (the test suite's platform) and where it is (a browser).
\<close>

definition node_loop :: "int option \<Rightarrow> unit world" where
  "node_loop l = new_StepLoop False 0 () 60 l False"

definition browser_loop :: "int option \<Rightarrow> unit world" where
  "browser_loop l = new_StepLoop True 0 () 60 l False"

text \<open>A host whose \<^verbatim>\<open>on_pause()\<close> and \<^verbatim>\<open>on_play()\<close> throw.\<close>

definition faulty_hooks :: "unit hooks" where
  "faulty_hooks =
     base_hooks
       \<lparr>on_pause := (\<lambda>w. (Throws ''on_pause failed'', host w)),
        on_play := (\<lambda>w. (Throws ''on_play failed'', host w))\<rparr>"

section \<open>Basic facts\<close>

lemma case_Done:
  "fst p = Done \<Longrightarrow>
     (case p of (Done, w') \<Rightarrow> f w' | (Raised x, w') \<Rightarrow> g x w') = f (snd p)"
  by (cases p) simp

lemma try_catch_guarded:
  "try_catch (call_hook n h) label w = (Done, guarded n h label w)"
  by (simp add: guarded_def try_catch_def split: prod.splits completion.splits)

lemma call_async_detached:
  "call_async n h label w = (Done, detached n h label w)"
  by (simp add: detached_def call_async_def split: prod.splits hook_result.splits)

lemma call_hook_hooked:
  "call_hook n h w = (case fst (h w) of Returns \<Rightarrow> Done | Throws x \<Rightarrow> Raised x, hooked n h w)"
  by (simp add: hooked_def call_hook_def split: prod.splits hook_result.splits)

lemma hooked_eq:
  "hooked n h w = w\<lparr>trace := trace w @ [(n, step_num w)], host := snd (h w)\<rparr>"
  by (simp add: hooked_def call_hook_def split: prod.splits hook_result.splits)

lemma guarded_eq:
  "guarded n h label w =
     w\<lparr>console := console w @ (case fst (h w) of Returns \<Rightarrow> [] | Throws x \<Rightarrow> [(label, x)]),
       trace := trace w @ [(n, step_num w)], host := snd (h w)\<rparr>"
  by (simp add: guarded_def try_catch_def call_hook_def split: prod.splits hook_result.splits)

lemma detached_eq:
  "detached n h label w =
     w\<lparr>unhandled := unhandled w @ (case fst (h w) of Returns \<Rightarrow> [] | Throws x \<Rightarrow> [(label, x)]),
       trace := trace w @ [(n, step_num w)], host := snd (h w)\<rparr>"
  by (simp add: detached_def call_async_def split: prod.splits hook_result.splits)

lemma hooked_fields [simp]:
  "step_num (hooked n h w) = step_num w"
  "lifespan (hooked n h w) = lifespan w"
  "sps (hooked n h w) = sps w"
  "interval (hooked n h w) = interval w"
  "startTime (hooked n h w) = startTime w"
  "lastStepTime (hooked n h w) = lastStepTime w"
  "lastStepDuration (hooked n h w) = lastStepDuration w"
  "timeoutId (hooked n h w) = timeoutId w"
  "initialized (hooked n h w) = initialized w"
  "running (hooked n h w) = running w"
  "paused (hooked n h w) = paused w"
  "kill (hooked n h w) = kill w"
  "RAFAvailable (hooked n h w) = RAFAvailable w"
  "RAFActive (hooked n h w) = RAFActive w"
  "RAFId (hooked n h w) = RAFId w"
  "now (hooked n h w) = now w"
  "pending (hooked n h w) = pending w"
  "next_handle (hooked n h w) = next_handle w"
  "console (hooked n h w) = console w"
  "unhandled (hooked n h w) = unhandled w"
  "trace (hooked n h w) = trace w @ [(n, step_num w)]"
  by (simp_all add: hooked_eq)

lemma guarded_fields [simp]:
  "step_num (guarded n h l w) = step_num w"
  "lifespan (guarded n h l w) = lifespan w"
  "sps (guarded n h l w) = sps w"
  "interval (guarded n h l w) = interval w"
  "startTime (guarded n h l w) = startTime w"
  "lastStepTime (guarded n h l w) = lastStepTime w"
  "lastStepDuration (guarded n h l w) = lastStepDuration w"
  "timeoutId (guarded n h l w) = timeoutId w"
  "initialized (guarded n h l w) = initialized w"
  "running (guarded n h l w) = running w"
  "paused (guarded n h l w) = paused w"
  "kill (guarded n h l w) = kill w"
  "RAFAvailable (guarded n h l w) = RAFAvailable w"
  "RAFActive (guarded n h l w) = RAFActive w"
  "RAFId (guarded n h l w) = RAFId w"
  "now (guarded n h l w) = now w"
  "pending (guarded n h l w) = pending w"
  "next_handle (guarded n h l w) = next_handle w"
  "unhandled (guarded n h l w) = unhandled w"
  "trace (guarded n h l w) = trace w @ [(n, step_num w)]"
  by (simp_all add: guarded_eq)

lemma detached_fields [simp]:
  "step_num (detached n h l w) = step_num w"
  "lifespan (detached n h l w) = lifespan w"
  "sps (detached n h l w) = sps w"
  "interval (detached n h l w) = interval w"
  "startTime (detached n h l w) = startTime w"
  "lastStepTime (detached n h l w) = lastStepTime w"
  "lastStepDuration (detached n h l w) = lastStepDuration w"
  "timeoutId (detached n h l w) = timeoutId w"
  "initialized (detached n h l w) = initialized w"
  "running (detached n h l w) = running w"
  "paused (detached n h l w) = paused w"
  "kill (detached n h l w) = kill w"
  "RAFAvailable (detached n h l w) = RAFAvailable w"
  "RAFActive (detached n h l w) = RAFActive w"
  "RAFId (detached n h l w) = RAFId w"
  "now (detached n h l w) = now w"
  "pending (detached n h l w) = pending w"
  "next_handle (detached n h l w) = next_handle w"
  "console (detached n h l w) = console w"
  "trace (detached n h l w) = trace w @ [(n, step_num w)]"
  by (simp_all add: detached_eq)

lemmas platform_defs =
  setTimeout_def clearTimeout_def requestAnimationFrame_def cancelAnimationFrame_def
  request_next_step_def cancel_next_step_def

lemmas stage_defs =
  init_def term_stage_def run_def assign_def try_catch_guarded call_async_detached

lemma term_stage_Done: "fst (term_stage H w) = Done"
  by (simp add: stage_defs)

lemma init_Done: "fst (init H w) = Done"
  by (simp add: stage_defs)

lemma run_Done: "fst (run H ts w) = Done"
  by (simp add: stage_defs)

lemma main_Done: "fst (main H w) = Done"
  by (simp add: main_def case_Done init_Done run_Done)

lemma start_Done: "fst (start H w) = Done"
  by (simp add: start_def assign_def main_Done case_Done)

lemma finish_Done: "fst (finish H w) = Done"
  by (simp add: finish_def assign_def term_stage_Done case_Done)

lemma timeout_fires_Done: "fst (timeout_fires H i w) = Done"
  by (simp add: timeout_fires_def run_Done split: option.splits)

lemma frame_fires_Done: "fst (frame_fires H i ts w) = Done"
  by (simp add: frame_fires_def run_Done split: option.splits)

lemma init_eq:
  "init H w =
     (Done, guarded Initial (initial H) ''Error in initial():''
              (w\<lparr>kill := False, initialized := True, step_num := 0\<rparr>))"
  by (simp add: stage_defs)

lemma term_stage_eq:
  "term_stage H w =
     (Done, guarded Final (final H) ''Error in final():''
              ((cancel_next_step (w\<lparr>running := False, paused := False\<rparr>))\<lparr>kill := True\<rparr>))"
  by (simp add: stage_defs)

lemma run_eq:
  "run H ts w =
     (if running w then
        if check_for_end_trigger w then term_stage H w
        else
          (Done,
           request_next_step ts
             ((guarded After (after H) ''Error in after():''
                (guarded Step (step H) ''Error in step():''
                  (guarded Before (before H) ''Error in before():''
                    (detached Background (background H) ''Error in background():'' w))))
              \<lparr>step_num := Suc (step_num w), lastStepDuration := ts - lastStepTime w,
                lastStepTime := ts\<rparr>))
      else (Done, w))"
  by (simp add: stage_defs)

lemma Done_snd: "fst p = Done \<Longrightarrow> (Done, snd p) = p"
  by (cases p) simp

lemma start_eq:
  "start H w = run H (now w) (snd (init H (w\<lparr>running := True, startTime := now w\<rparr>)))"
  by (simp add: start_def main_def assign_def case_Done init_Done run_Done init_eq Done_snd)

lemma finish_eq:
  "finish H w =
     (if \<not> initialized w \<or> kill w then (Done, w)
      else term_stage H (cancel_next_step (w\<lparr>running := False, paused := False, kill := True\<rparr>)))"
  by (simp add: finish_def assign_def case_Done term_stage_Done Done_snd)

lemma pause_eq:
  "pause H w =
     (if \<not> initialized w \<or> \<not> running w \<or> kill w then (Done, w)
      else call_hook On_pause (on_pause H) (cancel_next_step (w\<lparr>running := False, paused := True\<rparr>)))"
  by (simp add: pause_def assign_def call_hook_hooked split: hook_result.splits)

lemma play_eq:
  "play H w =
     (if \<not> initialized w \<or> running w \<or> kill w then (Done, w)
      else
        (case fst (on_play H (w\<lparr>running := True, paused := False,
                                startTime := now w - real (step_num w) * interval w\<rparr>)) of
           Returns \<Rightarrow>
             run H (now w)
               (hooked On_play (on_play H)
                  (w\<lparr>running := True, paused := False,
                     startTime := now w - real (step_num w) * interval w\<rparr>))
         | Throws x \<Rightarrow>
             (Raised x,
              hooked On_play (on_play H)
                (w\<lparr>running := True, paused := False,
                   startTime := now w - real (step_num w) * interval w\<rparr>))))"
  by (simp add: play_def assign_def call_hook_hooked run_Done case_Done Done_snd split: hook_result.splits)

lemma cancel_next_step_fields [simp]:
  "step_num (cancel_next_step w) = step_num w"
  "lifespan (cancel_next_step w) = lifespan w"
  "sps (cancel_next_step w) = sps w"
  "interval (cancel_next_step w) = interval w"
  "startTime (cancel_next_step w) = startTime w"
  "initialized (cancel_next_step w) = initialized w"
  "running (cancel_next_step w) = running w"
  "paused (cancel_next_step w) = paused w"
  "kill (cancel_next_step w) = kill w"
  "RAFAvailable (cancel_next_step w) = RAFAvailable w"
  "RAFActive (cancel_next_step w) = RAFActive w"
  "now (cancel_next_step w) = now w"
  "next_handle (cancel_next_step w) = next_handle w"
  "console (cancel_next_step w) = console w"
  "unhandled (cancel_next_step w) = unhandled w"
  "trace (cancel_next_step w) = trace w"
  "host (cancel_next_step w) = host w"
  by (simp_all add: cancel_next_step_def clearTimeout_def cancelAnimationFrame_def)

lemma request_next_step_fields [simp]:
  "step_num (request_next_step ts w) = step_num w"
  "lifespan (request_next_step ts w) = lifespan w"
  "sps (request_next_step ts w) = sps w"
  "interval (request_next_step ts w) = interval w"
  "startTime (request_next_step ts w) = startTime w"
  "initialized (request_next_step ts w) = initialized w"
  "running (request_next_step ts w) = running w"
  "paused (request_next_step ts w) = paused w"
  "kill (request_next_step ts w) = kill w"
  "RAFAvailable (request_next_step ts w) = RAFAvailable w"
  "RAFActive (request_next_step ts w) = RAFActive w"
  "now (request_next_step ts w) = now w"
  "console (request_next_step ts w) = console w"
  "unhandled (request_next_step ts w) = unhandled w"
  "trace (request_next_step ts w) = trace w"
  "host (request_next_step ts w) = host w"
  by (simp_all add: request_next_step_def setTimeout_def requestAnimationFrame_def Let_def)

lemma run_step_num:
  "step_num (snd (run H ts w)) =
     (if running w \<and> \<not> check_for_end_trigger w then Suc (step_num w) else step_num w)"
  by (simp add: run_eq term_stage_eq)

lemma run_trace:
  "trace (snd (run H ts w)) =
     trace w @
     (if running w then
        if check_for_end_trigger w then [(Final, step_num w)]
        else [(Background, step_num w), (Before, step_num w), (Step, step_num w), (After, step_num w)]
      else [])"
  by (simp add: run_eq term_stage_eq)

lemma run_flags:
  "running (snd (run H ts w)) = (running w \<and> \<not> check_for_end_trigger w)"
  "kill (snd (run H ts w)) = (kill w \<or> running w \<and> check_for_end_trigger w)"
  "paused (snd (run H ts w)) = (paused w \<and> \<not> (running w \<and> check_for_end_trigger w))"
  "initialized (snd (run H ts w)) = initialized w"
  by (simp_all add: run_eq term_stage_eq check_for_end_trigger_def)

lemma run_frame:
  "lifespan (snd (run H ts w)) = lifespan w"
  "sps (snd (run H ts w)) = sps w"
  "interval (snd (run H ts w)) = interval w"
  "startTime (snd (run H ts w)) = startTime w"
  "now (snd (run H ts w)) = now w"
  "RAFActive (snd (run H ts w)) = RAFActive w"
  "RAFAvailable (snd (run H ts w)) = RAFAvailable w"
  by (simp_all add: run_eq term_stage_eq)

subsection \<open>One firing of the pending callback\<close>

lemma settle_fields [simp]:
  "step_num (settle w) = step_num w"
  "lifespan (settle w) = lifespan w"
  "sps (settle w) = sps w"
  "interval (settle w) = interval w"
  "startTime (settle w) = startTime w"
  "initialized (settle w) = initialized w"
  "running (settle w) = running w"
  "paused (settle w) = paused w"
  "kill (settle w) = kill w"
  "RAFAvailable (settle w) = RAFAvailable w"
  "RAFActive (settle w) = RAFActive w"
  "now (settle w) = now w"
  "pending (settle w) = pending w"
  "next_handle (settle w) = next_handle w"
  "trace (settle w) = trace w"
  "host (settle w) = host w"
  by (simp_all add: settle_def)

lemma cancel_pending_subset:
  "set (pending (cancel_next_step w)) \<subseteq> set (pending w)"
  by (auto simp add: cancel_next_step_def clearTimeout_def cancelAnimationFrame_def)

lemma cancel_pending_empty:
  "pending w = [] \<Longrightarrow> pending (cancel_next_step w) = []"
  by (simp add: cancel_next_step_def clearTimeout_def cancelAnimationFrame_def)

lemma request_pending:
  "pending (request_next_step ts w) =
     (if running w then
        pending w @
          [if RAFActive w \<and> RAFAvailable w then Frame (next_handle w)
           else Timeout (next_handle w) (now w)
                  (max 0 (startTime w + real (step_num w) * interval w - now w))]
      else pending w)"
  by (simp add: request_next_step_def setTimeout_def requestAnimationFrame_def Let_def)

lemma run_pending:
  "pending (snd (run H ts w)) =
     (if running w then
        if check_for_end_trigger w then
          pending (cancel_next_step (w\<lparr>running := False, paused := False\<rparr>))
        else
          pending w @
            [if RAFActive w \<and> RAFAvailable w then Frame (next_handle w)
             else Timeout (next_handle w) (now w)
                    (max 0 (startTime w + real (Suc (step_num w)) * interval w - now w))]
      else pending w)"
  by (simp add: run_eq term_stage_eq request_pending)

lemma check_for_end_trigger_cong:
  "kill v = kill w \<Longrightarrow> lifespan v = lifespan w \<Longrightarrow> step_num v = step_num w \<Longrightarrow>
     check_for_end_trigger v = check_for_end_trigger w"
  by (simp add: check_for_end_trigger_def)

lemma fire_running:
  assumes "cycling w"
  shows "let w' = exec H (next_tick w) w in
           lifespan w' = lifespan w \<and> initialized w' \<and>
           (if check_for_end_trigger w then ended w' \<and> step_num w' = step_num w
            else cycling w' \<and> step_num w' = Suc (step_num w))"
proof -
  from assms obtain t where p: "pending w = [t]"
    by (cases "pending w") (auto simp add: cycling_def)
  from assms have f: "initialized w" "running w" "\<not> kill w"
    by (simp_all add: cycling_def)
  show ?thesis
  proof (cases t)
    case (Timeout i t0 d)
    define v where "v = clearTimeout i (w\<lparr>now := now w + max 0 (t0 + d - now w)\<rparr>)"
    have v: "pending v = []" "initialized v" "running v" "\<not> kill v" "lifespan v = lifespan w"
      "step_num v = step_num w"
      using p f Timeout by (simp_all add: v_def clearTimeout_def)
    have c: "check_for_end_trigger v = check_for_end_trigger w"
      using v f by (simp add: check_for_end_trigger_def)
    have e: "exec H (next_tick w) w = settle (snd (run H (now v) v))"
      using p Timeout by (simp add: exec_def next_tick_def timeout_fires_def v_def clearTimeout_def)
    show ?thesis
      unfolding e Let_def using v c
      by (simp add: run_step_num run_flags run_frame run_pending cycling_def ended_def
          cancel_pending_empty)
  next
    case (Frame i)
    define v where "v = cancelAnimationFrame i w"
    have v: "pending v = []" "initialized v" "running v" "\<not> kill v" "lifespan v = lifespan w"
      "step_num v = step_num w"
      using p f Frame by (simp_all add: v_def cancelAnimationFrame_def)
    have c: "check_for_end_trigger v = check_for_end_trigger w"
      using v f by (simp add: check_for_end_trigger_def)
    have e: "exec H (next_tick w) w = settle (snd (run H (now w) v))"
      using p Frame by (simp add: exec_def next_tick_def frame_fires_def v_def)
    show ?thesis
      unfolding e Let_def using v c
      by (simp add: run_step_num run_flags run_frame run_pending cycling_def ended_def
          cancel_pending_empty)
  qed
qed


lemma idle_stays: "pending w = [] \<Longrightarrow> run_until_idle H k w = Some w"
  by (cases k) simp_all

lemma cycling_step:
  "cycling w \<Longrightarrow> run_until_idle H (Suc k) w = run_until_idle H k (exec H (next_tick w) w)"
  by (auto simp add: cycling_def)

lemma end_trigger_lifespan:
  "\<not> kill w \<Longrightarrow> lifespan w = Some L \<Longrightarrow> L \<noteq> 0 \<Longrightarrow>
     check_for_end_trigger w = (L \<le> int (step_num w))"
  by (simp add: check_for_end_trigger_def truthy_number_def)

lemma end_trigger_falsy:
  "\<not> kill w \<Longrightarrow> \<not> truthy_number (lifespan w) \<Longrightarrow> \<not> check_for_end_trigger w"
  by (simp add: check_for_end_trigger_def)

lemma drain:
  assumes "cycling w" "lifespan w = Some L" "0 < L" "int (step_num w) \<le> L"
  shows "\<exists>w'. run_until_idle H (Suc (nat L - step_num w)) w = Some w' \<and> ended w' \<and>
           int (step_num w') = L \<and> lifespan w' = Some L"
  using assms
proof (induction "nat L - step_num w" arbitrary: w)
  case 0
  then have at_end: "check_for_end_trigger w"
    by (simp add: end_trigger_lifespan cycling_def)
  from 0 have eq: "int (step_num w) = L" by linarith
  let ?w' = "exec H (next_tick w) w"
  from fire_running [OF \<open>cycling w\<close>, of H] at_end
  have "ended ?w'" "step_num ?w' = step_num w" "lifespan ?w' = lifespan w"
    by (simp_all add: Let_def)
  moreover have "run_until_idle H (Suc (nat L - step_num w)) w = run_until_idle H (nat L - step_num w) ?w'"
    using \<open>cycling w\<close> by (rule cycling_step)
  moreover have "run_until_idle H (nat L - step_num w) ?w' = Some ?w'"
    using \<open>ended ?w'\<close> by (simp add: idle_stays ended_def)
  ultimately show ?case using eq \<open>lifespan w = Some L\<close> by simp
next
  case (Suc n)
  then have not_end: "\<not> check_for_end_trigger w"
    by (simp add: end_trigger_lifespan cycling_def)
  let ?w' = "exec H (next_tick w) w"
  from fire_running [OF \<open>cycling w\<close>, of H] not_end
  have w': "cycling ?w'" "step_num ?w' = Suc (step_num w)" "lifespan ?w' = lifespan w"
    by (simp_all add: Let_def)
  from Suc.hyps(2) w' have n: "n = nat L - step_num ?w'" by simp
  from Suc.hyps(2) w' have le: "int (step_num ?w') \<le> L" by linarith
  from Suc.hyps(1) [OF n w'(1) _ \<open>0 < L\<close> le] w'(3) \<open>lifespan w = Some L\<close>
  obtain u where u: "run_until_idle H (Suc (nat L - step_num ?w')) ?w' = Some u"
    "ended u" "int (step_num u) = L" "lifespan u = Some L"
    by auto
  have "run_until_idle H (Suc (nat L - step_num w)) w = run_until_idle H (nat L - step_num w) ?w'"
    using \<open>cycling w\<close> by (rule cycling_step)
  moreover have "nat L - step_num w = Suc (nat L - step_num ?w')"
    using Suc.hyps(2) w'(2) by simp
  ultimately show ?case using u by auto
qed

lemma never_idle:
  "cycling w \<Longrightarrow> \<not> truthy_number (lifespan w) \<Longrightarrow> run_until_idle H k w = None"
proof (induction k arbitrary: w)
  case 0
  then show ?case by (auto simp add: cycling_def)
next
  case (Suc k)
  then have "\<not> check_for_end_trigger w"
    by (simp add: end_trigger_falsy cycling_def)
  with fire_running [OF \<open>cycling w\<close>, of H]
  have "cycling (exec H (next_tick w) w)" "lifespan (exec H (next_tick w) w) = lifespan w"
    by (simp_all add: Let_def)
  with Suc.IH [of "exec H (next_tick w) w"] Suc.prems(2)
  have "run_until_idle H k (exec H (next_tick w) w) = None" by simp
  with cycling_step [OF \<open>cycling w\<close>, of H k] show ?case by simp
qed

lemma exec_Start: "exec H [Start] w = settle (snd (start H w))"
  by (simp add: exec_def)

lemma start_cycling:
  assumes "pending w = []" "\<not> (truthy_number (lifespan w) \<and> the (lifespan w) \<le> 0)"
  shows "cycling (exec H [Start] w) \<and> step_num (exec H [Start] w) = 1 \<and>
         lifespan (exec H [Start] w) = lifespan w"
  using assms
  by (simp add: exec_Start start_eq init_eq run_step_num run_flags run_frame run_pending
      cycling_def check_for_end_trigger_def)

subsection \<open>Evaluation on concrete loops\<close>

lemmas eval_defs =
  exec_def start_def main_def init_def run_def term_stage_def pause_def play_def finish_def
  assign_def call_hook_def try_catch_def call_async_def platform_defs
  check_for_end_trigger_def truthy_number_def truthy_handle_def or_zero_def settle_def
  timeout_fires_def frame_fires_def new_StepLoop_def base_hooks_def node_loop_def
  browser_loop_def set_sps_def set_use_RAF_def extend_lifespan_def next_tick_def Let_def

lemma paused_loop:
  "exec base_hooks [Start, Pause] (node_loop None) =
     \<lparr>step_num = 1, lifespan = None, sps = 60, interval = 50 / 3, startTime = 0,
      lastStepTime = 0, lastStepDuration = 0, timeoutId = None, initialized = True,
      running = False, paused = True, kill = False, RAFAvailable = False, RAFActive = False,
      RAFId = None, now = 0, pending = [], next_handle = 2, console = [], unhandled = [],
      trace = [(Initial, 0), (Background, 0), (Before, 0), (Step, 0), (After, 0), (On_pause, 1)],
      host = ()\<rparr>"
  by (simp add: eval_defs)

lemma faulty_started:
  "exec faulty_hooks [Start] (node_loop None) =
     \<lparr>step_num = 1, lifespan = None, sps = 60, interval = 50 / 3, startTime = 0,
      lastStepTime = 0, lastStepDuration = 0, timeoutId = Some 1, initialized = True,
      running = True, paused = False, kill = False, RAFAvailable = False, RAFActive = False,
      RAFId = None, now = 0, pending = [Timeout 1 0 (50 / 3)], next_handle = 2, console = [],
      unhandled = [],
      trace = [(Initial, 0), (Background, 0), (Before, 0), (Step, 0), (After, 0)],
      host = ()\<rparr>"
  by (simp add: eval_defs faulty_hooks_def)

lemma faulty_paused:
  "exec faulty_hooks [Start, Pause] (node_loop None) =
     \<lparr>step_num = 1, lifespan = None, sps = 60, interval = 50 / 3, startTime = 0,
      lastStepTime = 0, lastStepDuration = 0, timeoutId = None, initialized = True,
      running = False, paused = True, kill = False, RAFAvailable = False, RAFActive = False,
      RAFId = None, now = 0, pending = [], next_handle = 2, console = [], unhandled = [],
      trace = [(Initial, 0), (Background, 0), (Before, 0), (Step, 0), (After, 0), (On_pause, 1)],
      host = ()\<rparr>"
  by (simp add: eval_defs faulty_hooks_def)

lemma exec_snoc: "exec H (es @ [e]) w = dispatch H e (exec H es w)"
  by (simp add: exec_def)

lemma started_loop:
  "exec base_hooks [Start] (node_loop None) =
     \<lparr>step_num = 1, lifespan = None, sps = 60, interval = 50 / 3, startTime = 0,
      lastStepTime = 0, lastStepDuration = 0, timeoutId = Some 1, initialized = True,
      running = True, paused = False, kill = False, RAFAvailable = False, RAFActive = False,
      RAFId = None, now = 0, pending = [Timeout 1 0 (50 / 3)], next_handle = 2, console = [],
      unhandled = [],
      trace = [(Initial, 0), (Background, 0), (Before, 0), (Step, 0), (After, 0)],
      host = ()\<rparr>"
  by (simp add: eval_defs)

lemma late_loop:
  "exec base_hooks [Start, Advance 20] (node_loop None) =
     \<lparr>step_num = 1, lifespan = None, sps = 60, interval = 50 / 3, startTime = 0,
      lastStepTime = 0, lastStepDuration = 0, timeoutId = Some 1, initialized = True,
      running = True, paused = False, kill = False, RAFAvailable = False, RAFActive = False,
      RAFId = None, now = 20, pending = [Timeout 1 0 (50 / 3)], next_handle = 2, console = [],
      unhandled = [],
      trace = [(Initial, 0), (Background, 0), (Before, 0), (Step, 0), (After, 0)],
      host = ()\<rparr>"
  by (simp add: eval_defs)

lemma late_cycle:
  "exec base_hooks [Start, Advance 20, Timeout_fires 1] (node_loop None) =
     \<lparr>step_num = 2, lifespan = None, sps = 60, interval = 50 / 3, startTime = 0,
      lastStepTime = 20, lastStepDuration = 20, timeoutId = Some 2, initialized = True,
      running = True, paused = False, kill = False, RAFAvailable = False, RAFActive = False,
      RAFId = None, now = 20, pending = [Timeout 2 20 (40 / 3)], next_handle = 3, console = [],
      unhandled = [],
      trace = [(Initial, 0), (Background, 0), (Before, 0), (Step, 0), (After, 0),
               (Background, 1), (Before, 1), (Step, 1), (After, 1)],
      host = ()\<rparr>"
  by (simp add: eval_defs)

subsection \<open>Invariants of executions\<close>

lemma exec_Nil: "exec H [] w = w"
  by (simp add: exec_def)

lemma exec_invariant:
  assumes "P w" and "\<And>e v. P v \<Longrightarrow> Q e \<Longrightarrow> P (dispatch H e v)" and "list_all Q es"
  shows "P (exec H es w)"
  using assms(3)
proof (induction es rule: rev_induct)
  case Nil
  show ?case using assms(1) by (simp add: exec_Nil)
next
  case (snoc e es)
  then show ?case by (simp add: exec_snoc assms(2))
qed

subsection \<open>The log of hook calls\<close>

lemma since_init_append:
  "list_all (\<lambda>c. fst c \<noteq> Initial) cs \<Longrightarrow> since_init (tr @ cs) = since_init tr @ cs"
proof -
  assume "list_all (\<lambda>c. fst c \<noteq> Initial) cs"
  then have "takeWhile (\<lambda>c. fst c \<noteq> Initial) (rev cs @ rev tr) =
      rev cs @ takeWhile (\<lambda>c. fst c \<noteq> Initial) (rev tr)"
    by (intro takeWhile_append2) (simp add: list_all_iff)
  then show ?thesis by (simp add: since_init_def)
qed

lemma since_init_Initial:
  "list_all (\<lambda>c. fst c \<noteq> Initial) cs \<Longrightarrow> since_init (tr @ (Initial, k) # cs) = cs"
proof -
  assume a: "list_all (\<lambda>c. fst c \<noteq> Initial) cs"
  have "rev (tr @ (Initial, k) # cs) = rev cs @ (Initial, k) # rev tr" by simp
  then have "takeWhile (\<lambda>c. fst c \<noteq> Initial) (rev (tr @ (Initial, k) # cs)) = rev cs"
    using a by (simp add: takeWhile_tail list_all_iff)
  then show ?thesis by (simp add: since_init_def)
qed

lemma cycles_seen_append:
  "list_all (\<lambda>c. fst c \<noteq> Initial) cs \<Longrightarrow>
     cycles_seen (tr @ cs) = cycles_seen tr @ filter (\<lambda>c. in_cycle (fst c)) cs"
  by (simp add: cycles_seen_def since_init_append)

lemma cycles_seen_Initial:
  "list_all (\<lambda>c. fst c \<noteq> Initial) cs \<Longrightarrow>
     cycles_seen (tr @ (Initial, k) # cs) = filter (\<lambda>c. in_cycle (fst c)) cs"
  by (simp add: cycles_seen_def since_init_Initial)

lemma in_order_cong:
  "trace v = trace w \<Longrightarrow> step_num v = step_num w \<Longrightarrow> in_order v = in_order w"
  by (simp add: in_order_def)

lemma in_order_run: "in_order w \<Longrightarrow> in_order (snd (run H ts w))"
  by (simp add: in_order_def run_trace run_step_num cycles_seen_append in_cycle_def cycle_calls_def)

lemma in_order_hooked:
  "n \<noteq> Initial \<Longrightarrow> \<not> in_cycle n \<Longrightarrow> in_order w \<Longrightarrow> in_order (hooked n h w)"
  by (simp add: in_order_def cycles_seen_append)

lemma in_order_start: "in_order (snd (start H w))"
proof -
  let ?v = "snd (init H (w\<lparr>running := True, startTime := now w\<rparr>))"
  have "trace ?v = trace w @ [(Initial, 0)]" "step_num ?v = 0"
    by (simp_all add: init_eq)
  then have "in_order ?v"
    using cycles_seen_Initial [of "[]" "trace w" 0] by (simp add: in_order_def)
  then show ?thesis
    by (simp add: start_eq in_order_run)
qed

lemma in_order_dispatch:
  assumes a: "in_order w"
  shows "in_order (dispatch H e w)"
proof (cases e)
  case Start
  then show ?thesis
    using in_order_start [of H w] by (simp add: in_order_def)
next
  case Pause
  from a have "in_order (cancel_next_step (w\<lparr>running := False, paused := True\<rparr>))"
    by (simp add: in_order_def)
  then have "in_order (snd (pause H w))"
    using a
    by (simp add: pause_eq call_hook_hooked in_order_hooked in_cycle_def)
  with Pause show ?thesis by (simp add: in_order_def)
next
  case Play
  let ?w1 = "w\<lparr>running := True, paused := False,
                startTime := now w - real (step_num w) * interval w\<rparr>"
  from a have "in_order ?w1" by (simp add: in_order_def)
  then have "in_order (hooked On_play (on_play H) ?w1)"
    by (simp add: in_order_hooked in_cycle_def)
  then have "in_order (snd (play H w))"
    using a by (simp add: play_eq in_order_run split: hook_result.splits)
  with Play show ?thesis by (simp add: in_order_def)
next
  case Finish
  have "in_order (snd (term_stage H v))" if "in_order v" for v
    using that by (simp add: term_stage_eq in_order_def cycles_seen_append in_cycle_def)
  moreover from a have "in_order (cancel_next_step (w\<lparr>running := False, paused := False, kill := True\<rparr>))"
    by (simp add: in_order_def)
  ultimately have "in_order (snd (finish H w))"
    using a by (simp add: finish_eq)
  with Finish show ?thesis by (simp add: in_order_def)
next
  case (Set_sps r)
  with a show ?thesis by (simp add: set_sps_def in_order_def)
next
  case (Set_use_RAF b)
  with a show ?thesis by (simp add: set_use_RAF_def in_order_def)
next
  case (Extend_lifespan d)
  with a show ?thesis
    by (simp add: extend_lifespan_def in_order_def Let_def split: option.splits)
next
  case (Timeout_fires i)
  from a have "in_order (clearTimeout i w)" by (simp add: in_order_def clearTimeout_def)
  then have "in_order (snd (timeout_fires H i w))"
    using a by (simp add: timeout_fires_def in_order_run split: option.splits)
  with Timeout_fires show ?thesis by (simp add: in_order_def)
next
  case (Frame_fires i ts)
  from a have "in_order (cancelAnimationFrame i w)" by (simp add: in_order_def cancelAnimationFrame_def)
  then have "in_order (snd (frame_fires H i ts w))"
    using a by (simp add: frame_fires_def in_order_run split: option.splits)
  with Frame_fires show ?thesis by (simp add: in_order_def)
next
  case (Advance d)
  with a show ?thesis by (simp add: in_order_def)
qed

lemma in_order_exec: "in_order (exec H es (new_StepLoop raf t0 h0 r l RAF))"
proof (rule exec_invariant [where Q = "\<lambda>e. True"])
  show "in_order (new_StepLoop raf t0 h0 r l RAF)"
    by (simp add: in_order_def new_StepLoop_def cycles_seen_def since_init_def)
  show "in_order (dispatch H e v)" if "in_order v" for e v
    using that by (rule in_order_dispatch)
  show "list_all (\<lambda>e. True) es"
    by (simp add: list_all_iff)
qed

subsection \<open>The rate and the interval\<close>

lemma dispatch_rate_frame:
  assumes "\<And>r. e \<noteq> Set_sps r"
  shows "sps (dispatch H e w) = sps w \<and> interval (dispatch H e w) = interval w"
proof (cases e)
  case Start
  then show ?thesis by (simp add: start_eq init_eq run_frame)
next
  case Pause
  then show ?thesis by (simp add: pause_eq call_hook_hooked)
next
  case Play
  then show ?thesis by (simp add: play_eq run_frame split: hook_result.splits)
next
  case Finish
  then show ?thesis by (simp add: finish_eq term_stage_eq)
next
  case (Set_sps r)
  with assms [of r] show ?thesis by simp
next
  case (Set_use_RAF b)
  then show ?thesis by (simp add: set_use_RAF_def)
next
  case (Extend_lifespan d)
  then show ?thesis by (simp add: extend_lifespan_def Let_def split: option.splits)
next
  case (Timeout_fires i)
  then show ?thesis by (simp add: timeout_fires_def run_frame clearTimeout_def split: option.splits)
next
  case (Frame_fires i ts)
  then show ?thesis by (simp add: frame_fires_def run_frame cancelAnimationFrame_def split: option.splits)
next
  case (Advance d)
  then show ?thesis by simp
qed

lemma rate_dispatch:
  assumes "interval w = 1000 / sps w \<and> 0 < sps w" and "rate_ok e"
  shows "interval (dispatch H e w) = 1000 / sps (dispatch H e w) \<and> 0 < sps (dispatch H e w)"
proof (cases "\<exists>r. e = Set_sps r")
  case True
  with assms(2) show ?thesis by (auto simp add: set_sps_def)
next
  case False
  then have "sps (dispatch H e w) = sps w \<and> interval (dispatch H e w) = interval w"
    by (intro dispatch_rate_frame) simp
  with assms(1) show ?thesis by simp
qed

lemma rate_exec:
  assumes "0 < r" and "list_all rate_ok es"
  shows "interval (exec H es (new_StepLoop raf t0 h0 r l RAF)) =
           1000 / sps (exec H es (new_StepLoop raf t0 h0 r l RAF)) \<and>
         0 < sps (exec H es (new_StepLoop raf t0 h0 r l RAF))"
proof (rule exec_invariant [where Q = rate_ok and P = "\<lambda>w. interval w = 1000 / sps w \<and> 0 < sps w"])
  show "interval (new_StepLoop raf t0 h0 r l RAF) = 1000 / sps (new_StepLoop raf t0 h0 r l RAF) \<and>
      0 < sps (new_StepLoop raf t0 h0 r l RAF)"
    using assms(1) by (simp add: new_StepLoop_def)
  show "interval (dispatch H e v) = 1000 / sps (dispatch H e v) \<and> 0 < sps (dispatch H e v)"
    if "interval v = 1000 / sps v \<and> 0 < sps v" "rate_ok e" for e v
    using that by (rule rate_dispatch)
  show "list_all rate_ok es" by (rule assms(2))
qed

subsection \<open>Timers a task adds\<close>

lemma run_new_timer:
  assumes "Timeout i t d \<in> set (pending (snd (run H ts v)))"
    and "Timeout i t d \<notin> set (pending w)" and "set (pending v) \<subseteq> set (pending w)"
  shows "t = now v \<and>
         d = max 0 (startTime v + real (step_num (snd (run H ts v))) * interval v - now v)"
proof (cases "running v \<and> \<not> check_for_end_trigger v")
  case True
  with assms show ?thesis
    by (auto simp add: run_pending run_step_num split: if_splits)
next
  case False
  have "set (pending (cancel_next_step (v\<lparr>running := False, paused := False\<rparr>))) \<subseteq> set (pending v)"
    using cancel_pending_subset [of "v\<lparr>running := False, paused := False\<rparr>"] by simp
  with False have "set (pending (snd (run H ts v))) \<subseteq> set (pending v)"
    by (auto simp add: run_pending)
  with assms show ?thesis by auto
qed

lemma settled_run_new_timer:
  assumes "Timeout i t d \<in> set (pending (settle (snd (run H ts v))))"
    and "Timeout i t d \<notin> set (pending w)" and "set (pending v) \<subseteq> set (pending w)"
  shows "t = now (settle (snd (run H ts v))) \<and>
         d = max 0 (startTime (settle (snd (run H ts v))) +
                    real (step_num (settle (snd (run H ts v)))) * interval (settle (snd (run H ts v))) -
                    now (settle (snd (run H ts v))))"
  using run_new_timer [of i t d H ts v w] assms by (simp add: run_frame)

lemma dispatch_new_timer:
  assumes "Timeout i t d \<in> set (pending (dispatch H e w))" and "Timeout i t d \<notin> set (pending w)"
  shows "t = now (dispatch H e w) \<and>
         d = max 0 (startTime (dispatch H e w) +
                    real (step_num (dispatch H e w)) * interval (dispatch H e w) -
                    now (dispatch H e w))"
proof (cases e)
  case Start
  let ?v = "snd (init H (w\<lparr>running := True, startTime := now w\<rparr>))"
  have v: "set (pending ?v) \<subseteq> set (pending w)" by (simp add: init_eq)
  have e: "dispatch H e w = settle (snd (run H (now w) ?v))"
    using Start by (simp add: start_eq)
  from assms show ?thesis
    unfolding e using v by (intro settled_run_new_timer [where w = w]) simp_all
next
  case Pause
  have "set (pending (snd (pause H w))) \<subseteq> set (pending w)"
    using cancel_pending_subset [of "w\<lparr>running := False, paused := True\<rparr>"]
    by (simp add: pause_eq call_hook_hooked)
  with assms Pause show ?thesis by auto
next
  case Play
  let ?w1 = "w\<lparr>running := True, paused := False,
                startTime := now w - real (step_num w) * interval w\<rparr>"
  let ?v = "hooked On_play (on_play H) ?w1"
  show ?thesis
  proof (cases "\<not> initialized w \<or> running w \<or> kill w")
    case True
    with assms Play show ?thesis by (simp add: play_eq)
  next
    case valid: False
    show ?thesis
    proof (cases "fst (on_play H ?w1)")
      case Returns
      with valid Play have e: "dispatch H e w = settle (snd (run H (now w) ?v))"
        by (simp add: play_eq)
      have v: "set (pending ?v) \<subseteq> set (pending w)" by simp
      from assms show ?thesis
        unfolding e using v by (intro settled_run_new_timer [where w = w]) simp_all
    next
      case (Throws x)
      with valid Play have "pending (dispatch H e w) = pending w"
        by (simp add: play_eq)
      with assms show ?thesis by simp
    qed
  qed
next
  case Finish
  let ?v = "cancel_next_step (w\<lparr>running := False, paused := False, kill := True\<rparr>)"
  have "set (pending (cancel_next_step (?v\<lparr>running := False, paused := False\<rparr>))) \<subseteq> set (pending ?v)"
    using cancel_pending_subset [of "?v\<lparr>running := False, paused := False\<rparr>"] by simp
  moreover have "set (pending ?v) \<subseteq> set (pending w)"
    using cancel_pending_subset [of "w\<lparr>running := False, paused := False, kill := True\<rparr>"] by simp
  ultimately have "set (pending (snd (finish H w))) \<subseteq> set (pending w)"
    by (auto simp add: finish_eq term_stage_eq)
  with assms Finish show ?thesis by auto
next
  case (Set_sps r)
  with assms show ?thesis by (simp add: set_sps_def)
next
  case (Set_use_RAF b)
  with assms show ?thesis by (simp add: set_use_RAF_def)
next
  case (Extend_lifespan k)
  with assms show ?thesis by (simp add: extend_lifespan_def Let_def split: option.splits if_splits)
next
  case (Timeout_fires j)
  show ?thesis
  proof (cases "\<exists>c. find (is_timeout j) (pending w) = Some c \<and> due (now w) c")
    case True
    then have e: "dispatch H e w = settle (snd (run H (now w) (clearTimeout j w)))"
      using Timeout_fires by (auto simp add: timeout_fires_def)
    have v: "set (pending (clearTimeout j w)) \<subseteq> set (pending w)"
      by (auto simp add: clearTimeout_def)
    from assms have "t = now (settle (snd (run H (now w) (clearTimeout j w)))) \<and>
         d = max 0 (startTime (settle (snd (run H (now w) (clearTimeout j w)))) +
                    real (step_num (settle (snd (run H (now w) (clearTimeout j w))))) *
                      interval (settle (snd (run H (now w) (clearTimeout j w)))) -
                    now (settle (snd (run H (now w) (clearTimeout j w)))))"
      unfolding e using v by (intro settled_run_new_timer [where w = w]) simp_all
    then show ?thesis unfolding e .
  next
    case False
    then have "pending (dispatch H e w) = pending w"
      using Timeout_fires by (auto simp add: timeout_fires_def split: option.splits)
    with assms show ?thesis by simp
  qed
next
  case (Frame_fires j ts)
  show ?thesis
  proof (cases "find (is_frame j) (pending w)")
    case None
    then have "pending (dispatch H e w) = pending w"
      using Frame_fires by (simp add: frame_fires_def)
    with assms show ?thesis by simp
  next
    case (Some c)
    then have e: "dispatch H e w = settle (snd (run H ts (cancelAnimationFrame j w)))"
      using Frame_fires by (simp add: frame_fires_def)
    have v: "set (pending (cancelAnimationFrame j w)) \<subseteq> set (pending w)"
      by (auto simp add: cancelAnimationFrame_def)
    from assms have "t = now (settle (snd (run H ts (cancelAnimationFrame j w)))) \<and>
         d = max 0 (startTime (settle (snd (run H ts (cancelAnimationFrame j w)))) +
                    real (step_num (settle (snd (run H ts (cancelAnimationFrame j w))))) *
                      interval (settle (snd (run H ts (cancelAnimationFrame j w)))) -
                    now (settle (snd (run H ts (cancelAnimationFrame j w)))))"
      unfolding e using v by (intro settled_run_new_timer [where w = w]) simp_all
    then show ?thesis unfolding e .
  qed
next
  case (Advance k)
  with assms show ?thesis by (simp split: if_splits)
qed

subsection \<open>The flags of a terminated loop\<close>

lemma idle_run:
  assumes "kill v \<longrightarrow> \<not> running v \<and> \<not> paused v"
  shows "kill (snd (run H ts v)) \<longrightarrow> \<not> running (snd (run H ts v)) \<and> \<not> paused (snd (run H ts v))"
  using assms by (auto simp add: run_flags)

lemma idle_dispatch:
  assumes a: "kill w \<longrightarrow> \<not> running w \<and> \<not> paused w"
  shows "kill (dispatch H e w) \<longrightarrow> \<not> running (dispatch H e w) \<and> \<not> paused (dispatch H e w)"
proof (cases e)
  case Start
  then show ?thesis
    by (auto simp add: start_eq init_eq run_flags)
next
  case Pause
  with a show ?thesis by (simp add: pause_eq call_hook_hooked)
next
  case Play
  let ?v = "hooked On_play (on_play H)
              (w\<lparr>running := True, paused := False,
                 startTime := now w - real (step_num w) * interval w\<rparr>)"
  show ?thesis
  proof (cases "\<not> initialized w \<or> running w \<or> kill w")
    case True
    with a Play show ?thesis by (simp add: play_eq)
  next
    case False
    then have "kill (snd (run H (now w) ?v)) \<longrightarrow>
        \<not> running (snd (run H (now w) ?v)) \<and> \<not> paused (snd (run H (now w) ?v))"
      by (intro idle_run) simp
    with False Play show ?thesis
      by (simp add: play_eq split: hook_result.splits)
  qed
next
  case Finish
  with a show ?thesis by (simp add: finish_eq term_stage_eq)
next
  case (Set_sps r)
  with a show ?thesis by (simp add: set_sps_def)
next
  case (Set_use_RAF b)
  with a show ?thesis by (simp add: set_use_RAF_def)
next
  case (Extend_lifespan d)
  with a show ?thesis by (simp add: extend_lifespan_def Let_def split: option.splits)
next
  case (Timeout_fires i)
  have "kill (snd (run H (now w) (clearTimeout i w))) \<longrightarrow>
      \<not> running (snd (run H (now w) (clearTimeout i w))) \<and>
      \<not> paused (snd (run H (now w) (clearTimeout i w)))"
    using a by (intro idle_run) (simp add: clearTimeout_def)
  with a Timeout_fires show ?thesis
    by (simp add: timeout_fires_def split: option.splits)
next
  case (Frame_fires i ts)
  have "kill (snd (run H ts (cancelAnimationFrame i w))) \<longrightarrow>
      \<not> running (snd (run H ts (cancelAnimationFrame i w))) \<and>
      \<not> paused (snd (run H ts (cancelAnimationFrame i w)))"
    using a by (intro idle_run) (simp add: cancelAnimationFrame_def)
  with a Frame_fires show ?thesis
    by (simp add: frame_fires_def split: option.splits)
next
  case (Advance d)
  with a show ?thesis by simp
qed

lemma finished_loop:
  "exec base_hooks [Start, Finish] (node_loop None) =
     \<lparr>step_num = 1, lifespan = None, sps = 60, interval = 50 / 3, startTime = 0,
      lastStepTime = 0, lastStepDuration = 0, timeoutId = None, initialized = True,
      running = False, paused = False, kill = True, RAFAvailable = False, RAFActive = False,
      RAFId = None, now = 0, pending = [], next_handle = 2, console = [], unhandled = [],
      trace = [(Initial, 0), (Background, 0), (Before, 0), (Step, 0), (After, 0), (Final, 1)],
      host = ()\<rparr>"
  by (simp add: eval_defs)

section \<open>Calls in an invalid state\<close>

text \<open>
  Claim C9. \<^verbatim>\<open>pause()\<close> called when the loop is not initialized, not running or
  terminated, \<^verbatim>\<open>play()\<close> called when it is not initialized, running or terminated, and
  \<^verbatim>\<open>finish()\<close> called when it is not initialized or terminated, return normally and leave
  the whole state as it was: no field changes and no hook is invoked (the log of hook calls
  and the host's data are part of the state). \<^verbatim>\<open>start()\<close> is valid from every state: it
  returns normally, leaves the loop initialized, and its first act after the reset is the
  call of \<^verbatim>\<open>initial()\<close>, which sees step 0.
\<close>

theorem invalid_call_is_noop:
  "(\<not> initialized w \<or> \<not> running w \<or> kill w \<longrightarrow> pause H w = (Done, w)) \<and>
   (\<not> initialized w \<or> running w \<or> kill w \<longrightarrow> play H w = (Done, w)) \<and>
   (\<not> initialized w \<or> kill w \<longrightarrow> finish H w = (Done, w)) \<and>
   fst (start H w) = Done \<and>
   initialized (snd (start H w)) \<and>
   take (Suc (length (trace w))) (trace (snd (start H w))) = trace w @ [(Initial, 0)]"
  by (simp add: pause_def play_def finish_def start_eq init_eq run_Done run_flags run_trace)

theorem invalid_call_is_noop_witness:
  "pause base_hooks (node_loop None) = (Done, node_loop None) \<and>
   play base_hooks (node_loop None) = (Done, node_loop None) \<and>
   finish base_hooks (node_loop None) = (Done, node_loop None) \<and>
   fst (start base_hooks (node_loop None)) = Done \<and>
   initialized (snd (start base_hooks (node_loop None))) \<and>
   take (Suc 0) (trace (snd (start base_hooks (node_loop None)))) = [(Initial, 0)]"
  using invalid_call_is_noop [of "node_loop None" base_hooks]
  by (simp add: node_loop_def new_StepLoop_def)

section \<open>Resuming with play\<close>

text \<open>
  Claim C7. \<^verbatim>\<open>play()\<close> does nothing unless the loop is initialized, not running and not
  terminated. When it is, \<^verbatim>\<open>play()\<close> sets \<open>running\<close>, clears \<open>paused\<close>, sets the start time
  to \<open>now - step_num * interval\<close>, calls \<^verbatim>\<open>on_play()\<close> on that state, and, the hook having
  returned, goes on as \<^verbatim>\<open>_run(performance.now())\<close> does from the state the hook left: the
  call of \<^verbatim>\<open>play()\<close> ends as that attempt to run a cycle ends. (What \<^verbatim>\<open>play()\<close> does
  when \<^verbatim>\<open>on_play()\<close> throws is the subject of claim C2.)
\<close>

theorem play_resumes:
  fixes w :: "'h world"
  defines "w1 \<equiv> w\<lparr>running := True, paused := False,
                      startTime := now w - real (step_num w) * interval w\<rparr>"
  shows
  "(\<not> (initialized w \<and> \<not> running w \<and> \<not> kill w) \<longrightarrow> play H w = (Done, w)) \<and>
   (initialized w \<and> \<not> running w \<and> \<not> kill w \<and> fst (on_play H w1) = Returns \<longrightarrow>
      play H w = run H (now w) (hooked On_play (on_play H) w1) \<and>
      hooked On_play (on_play H) w1 =
        w\<lparr>running := True, paused := False,
           startTime := now w - real (step_num w) * interval w,
           trace := trace w @ [(On_play, step_num w)], host := snd (on_play H w1)\<rparr>)"
  by (simp add: play_eq w1_def hooked_eq)

theorem play_resumes_witness:
  "\<not> initialized (node_loop None) \<and>
   play base_hooks (node_loop None) = (Done, node_loop None) \<and>
   initialized (exec base_hooks [Start, Pause] (node_loop None)) \<and>
   \<not> running (exec base_hooks [Start, Pause] (node_loop None)) \<and>
   \<not> kill (exec base_hooks [Start, Pause] (node_loop None)) \<and>
   play base_hooks (exec base_hooks [Start, Pause] (node_loop None)) =
     run base_hooks (now (exec base_hooks [Start, Pause] (node_loop None)))
       (hooked On_play (on_play base_hooks)
          ((exec base_hooks [Start, Pause] (node_loop None))
             \<lparr>running := True, paused := False,
                startTime := now (exec base_hooks [Start, Pause] (node_loop None))
                  - real (step_num (exec base_hooks [Start, Pause] (node_loop None)))
                    * interval (exec base_hooks [Start, Pause] (node_loop None))\<rparr>))"
proof -
  have pre: "initialized (exec base_hooks [Start, Pause] (node_loop None)) \<and>
      \<not> running (exec base_hooks [Start, Pause] (node_loop None)) \<and>
      \<not> kill (exec base_hooks [Start, Pause] (node_loop None))"
    by (simp add: paused_loop)
  have ret: "fst (on_play base_hooks v) = Returns" for v :: "unit world"
    by (simp add: base_hooks_def)
  have fresh: "\<not> initialized (node_loop None)"
    by (simp add: node_loop_def new_StepLoop_def)
  from play_resumes [of "node_loop None" base_hooks] fresh
  have noop: "play base_hooks (node_loop None) = (Done, node_loop None)"
    by blast
  from play_resumes [of "exec base_hooks [Start, Pause] (node_loop None)" base_hooks] pre ret
    fresh noop
  show ?thesis by blast
qed

subsection \<open>From start or play to the end of the lifespan\<close>

lemma start_drain:
  assumes "0 < N"
  shows "\<exists>w'. run_until_idle H N (exec H [Start] (new_StepLoop raf t0 h0 r (Some (int N)) RAF)) = Some w' \<and>
           ended w' \<and> step_num w' = N \<and> lifespan w' = Some (int N)"
proof -
  let ?w0 = "new_StepLoop raf t0 h0 r (Some (int N)) RAF"
  let ?w1 = "exec H [Start] ?w0"
  have "pending ?w0 = []" "lifespan ?w0 = Some (int N)"
    by (simp_all add: new_StepLoop_def)
  then have w1: "cycling ?w1" "step_num ?w1 = 1" "lifespan ?w1 = Some (int N)"
    using start_cycling [of ?w0 H] assms by (simp_all add: truthy_number_def)
  from drain [OF w1(1) w1(3), of H] assms w1(2)
  obtain u where u: "run_until_idle H (Suc (nat (int N) - step_num ?w1)) ?w1 = Some u"
    "ended u" "int (step_num u) = int N" "lifespan u = Some (int N)"
    by auto
  have fuel: "Suc (nat (int N) - step_num ?w1) = N"
    using assms w1(2) by simp
  from u(1) have "run_until_idle H N ?w1 = Some u"
    by (simp only: fuel)
  with u(2,3,4) show ?thesis
    by simp
qed

lemma exec_Play: "exec H [Play] w = settle (snd (play H w))"
  by (simp add: exec_def)

lemma play_cycle:
  assumes "initialized w" "\<not> running w" "\<not> kill w" "\<not> check_for_end_trigger w"
    and "\<forall>v. fst (on_play H v) = Returns"
  shows "running (snd (play H w))" "\<not> kill (snd (play H w))" "initialized (snd (play H w))"
    "step_num (snd (play H w)) = Suc (step_num w)"
    "lifespan (snd (play H w)) = lifespan w"
    "trace (snd (play H w)) =
       trace w @ [(On_play, step_num w), (Background, step_num w), (Before, step_num w),
                  (Step, step_num w), (After, step_num w)]"
    "\<exists>t. pending (snd (play H w)) = pending w @ [t]"
proof -
  let ?w1 = "w\<lparr>running := True, paused := False,
                startTime := now w - real (step_num w) * interval w\<rparr>"
  let ?v = "hooked On_play (on_play H) ?w1"
  from assms have e: "play H w = run H (now w) ?v"
    by (simp add: play_eq)
  have c: "\<not> check_for_end_trigger ?v"
    using assms(4) by (simp add: check_for_end_trigger_def)
  show "running (snd (play H w))" "\<not> kill (snd (play H w))" "initialized (snd (play H w))"
    "step_num (snd (play H w)) = Suc (step_num w)"
    "lifespan (snd (play H w)) = lifespan w"
    "trace (snd (play H w)) =
       trace w @ [(On_play, step_num w), (Background, step_num w), (Before, step_num w),
                  (Step, step_num w), (After, step_num w)]"
    "\<exists>t. pending (snd (play H w)) = pending w @ [t]"
    unfolding e using c assms(1,3)
    by (simp_all add: run_step_num run_flags run_frame run_trace run_pending)
qed

section \<open>Running to the end of the lifespan\<close>

text \<open>
  Claim C1, at lifespan 0. A loop constructed with lifespan 0 and started does not end with
  step number 0: \<^verbatim>\<open>_check_for_end_trigger\<close> tests \<^verbatim>\<open>this._lifespan && ...\<close>, and 0 is falsy,
  so the lifespan counts as unset. After \<^verbatim>\<open>start()\<close> the loop is running at step 1, and
  however many callbacks fire, one more is pending: it never terminates. This holds for
  every rate, every host and both scheduling strategies.
\<close>

theorem lifespan_zero_never_ends:
  "run_until_idle H k (exec H [Start] (new_StepLoop raf t0 h0 r (Some 0) RAF)) = None \<and>
   is_running (exec H [Start] (new_StepLoop raf t0 h0 r (Some 0) RAF)) \<and>
   get_step (exec H [Start] (new_StepLoop raf t0 h0 r (Some 0) RAF)) = 1"
proof -
  let ?w0 = "new_StepLoop raf t0 h0 r (Some 0) RAF"
  have "pending ?w0 = []" "lifespan ?w0 = Some 0"
    by (simp_all add: new_StepLoop_def)
  then have "cycling (exec H [Start] ?w0) \<and> step_num (exec H [Start] ?w0) = 1 \<and>
      lifespan (exec H [Start] ?w0) = lifespan ?w0"
    by (intro start_cycling) (simp_all add: truthy_number_def)
  then show ?thesis
    using \<open>lifespan ?w0 = Some 0\<close>
    by (simp add: never_idle truthy_number_def is_running_def get_step_def cycling_def)
qed

theorem lifespan_zero_never_ends_witness:
  "run_until_idle base_hooks 3 (exec base_hooks [Start] (node_loop (Some 0))) = None \<and>
   is_running (exec base_hooks [Start] (node_loop (Some 0))) \<and>
   get_step (exec base_hooks [Start] (node_loop (Some 0))) = 1"
  using lifespan_zero_never_ends [of base_hooks 3 False 0 "()" 60 False]
  by (simp add: node_loop_def)

text \<open>
  A positive lifespan \<open>N\<close> is reached exactly: the loop, started and left to run, comes to
  rest after \<open>N\<close> firings at most, terminated, not running, at step \<open>N\<close>, whatever the
  rate, the host's hooks (throwing or not) and the strategy.
\<close>

theorem lifespan_reached:
  assumes "0 < N"
  shows "\<exists>w'. run_until_idle H N (exec H [Start] (new_StepLoop raf t0 h0 r (Some (int N)) RAF)) = Some w' \<and>
           get_step w' = N \<and> \<not> is_running w' \<and> kill w'"
  using start_drain [OF assms, of H raf t0 h0 r RAF]
  by (auto simp add: ended_def get_step_def is_running_def)

theorem lifespan_reached_witness:
  "0 < (2::nat) \<and>
   (\<exists>w'. run_until_idle base_hooks 2 (exec base_hooks [Start] (node_loop (Some 2))) = Some w' \<and>
      get_step w' = 2 \<and> \<not> is_running w' \<and> kill w')"
  using lifespan_reached [of 2 base_hooks False 0 "()" 60 False]
  by (simp add: node_loop_def)

section \<open>Extending the lifespan\<close>

text \<open>
  Claim C8. \<^verbatim>\<open>extend_lifespan(delta)\<close> on a loop that is not initialized returns
  \<^verbatim>\<open>undefined\<close> and changes nothing. On an initialized loop, a \<open>delta\<close> that is not a number
  makes the lifespan unlimited; a number is added to the current lifespan, an unset one
  counting as 0, the sum is the new lifespan and the value returned, and the termination
  flag is cleared when it was set and the new lifespan exceeds the step number. In
  particular, for every host whose \<^verbatim>\<open>on_play()\<close> returns, every rate and both strategies: a
  loop of lifespan 2, started and left to run, terminates at step 2; \<^verbatim>\<open>extend_lifespan(2)\<close>
  then returns 4, \<^verbatim>\<open>get_lifespan()\<close> is 4 and the termination flag is clear; \<^verbatim>\<open>play()\<close>
  resumes the loop (running, at step 3), and left to run it terminates at step 4.
\<close>

theorem extend_lifespan_effect:
  "(\<not> initialized w \<longrightarrow> extend_lifespan d w = (None, w)) \<and>
   (initialized w \<longrightarrow> extend_lifespan None w = (None, w\<lparr>lifespan := None\<rparr>)) \<and>
   (initialized w \<longrightarrow>
      extend_lifespan (Some k) w =
        (Some ((case lifespan w of None \<Rightarrow> 0 | Some l \<Rightarrow> l) + k),
         w\<lparr>lifespan := Some ((case lifespan w of None \<Rightarrow> 0 | Some l \<Rightarrow> l) + k),
           kill := kill w \<and> \<not> int (step_num w) < (case lifespan w of None \<Rightarrow> 0 | Some l \<Rightarrow> l) + k\<rparr>)) \<and>
   ((\<forall>v. fst (on_play H v) = Returns) \<longrightarrow>
      (\<exists>wa wb wc.
         run_until_idle H 2 (exec H [Start] (new_StepLoop raf t0 h0 r (Some 2) RAF)) = Some wa \<and>
         kill wa \<and> get_step wa = 2 \<and>
         extend_lifespan (Some 2) wa = (Some 4, wb) \<and>
         get_lifespan wb = Some 4 \<and> \<not> kill wb \<and>
         is_running (exec H [Play] wb) \<and> get_step (exec H [Play] wb) = 3 \<and>
         run_until_idle H 2 (exec H [Play] wb) = Some wc \<and>
         get_step wc = 4 \<and> \<not> is_running wc \<and> kill wc))"
proof (intro conjI impI)
  show "extend_lifespan d w = (None, w)" if "\<not> initialized w"
    using that by (simp add: extend_lifespan_def)
  show "extend_lifespan None w = (None, w\<lparr>lifespan := None\<rparr>)" if "initialized w"
    using that by (simp add: extend_lifespan_def)
  show "extend_lifespan (Some k) w =
        (Some ((case lifespan w of None \<Rightarrow> 0 | Some l \<Rightarrow> l) + k),
         w\<lparr>lifespan := Some ((case lifespan w of None \<Rightarrow> 0 | Some l \<Rightarrow> l) + k),
           kill := kill w \<and> \<not> int (step_num w) < (case lifespan w of None \<Rightarrow> 0 | Some l \<Rightarrow> l) + k\<rparr>)"
    if "initialized w"
    using that by (cases "kill w") (auto simp add: extend_lifespan_def or_zero_def Let_def split: option.splits)
  show "\<exists>wa wb wc.
         run_until_idle H 2 (exec H [Start] (new_StepLoop raf t0 h0 r (Some 2) RAF)) = Some wa \<and>
         kill wa \<and> get_step wa = 2 \<and>
         extend_lifespan (Some 2) wa = (Some 4, wb) \<and>
         get_lifespan wb = Some 4 \<and> \<not> kill wb \<and>
         is_running (exec H [Play] wb) \<and> get_step (exec H [Play] wb) = 3 \<and>
         run_until_idle H 2 (exec H [Play] wb) = Some wc \<and>
         get_step wc = 4 \<and> \<not> is_running wc \<and> kill wc"
    if ret: "\<forall>v. fst (on_play H v) = Returns"
  proof -
    from start_drain [of 2 H raf t0 h0 r RAF]
    obtain wa where wa: "run_until_idle H 2 (exec H [Start] (new_StepLoop raf t0 h0 r (Some 2) RAF)) = Some wa"
      "ended wa" "step_num wa = 2" "lifespan wa = Some 2"
      by auto
    define wb where "wb = wa\<lparr>lifespan := Some 4, kill := False\<rparr>"
    have ext: "extend_lifespan (Some 2) wa = (Some 4, wb)"
      using wa by (simp add: extend_lifespan_def or_zero_def Let_def ended_def wb_def)
    have wb: "initialized wb" "\<not> running wb" "\<not> kill wb" "pending wb = []" "step_num wb = 2"
      "lifespan wb = Some 4"
      using wa by (simp_all add: wb_def ended_def)
    then have nc: "\<not> check_for_end_trigger wb"
      by (simp add: check_for_end_trigger_def truthy_number_def)
    let ?wp = "exec H [Play] wb"
    from play_cycle [OF wb(1,2,3) nc ret] wb(4,5,6)
    have wp: "cycling ?wp" "step_num ?wp = 3" "lifespan ?wp = Some 4"
      by (auto simp add: exec_Play cycling_def)
    from drain [OF wp(1) wp(3), of H] wp(2)
    obtain wc where wc: "run_until_idle H (Suc (nat 4 - step_num ?wp)) ?wp = Some wc"
      "ended wc" "int (step_num wc) = 4"
      by auto
    have fuel: "Suc (nat 4 - step_num ?wp) = 2" using wp(2) by simp
    from wc(1) have "run_until_idle H 2 ?wp = Some wc" by (simp only: fuel)
    with wa ext wb wp wc(2,3) show ?thesis
      by (auto simp add: ended_def cycling_def get_step_def get_lifespan_def is_running_def)
  qed
qed

theorem extend_lifespan_effect_witness:
  "\<not> initialized (node_loop None) \<and>
   extend_lifespan (Some 2) (node_loop None) = (None, node_loop None) \<and>
   initialized (exec base_hooks [Start] (node_loop None)) \<and>
   fst (extend_lifespan None (exec base_hooks [Start] (node_loop (Some 7)))) = None \<and>
   get_lifespan (snd (extend_lifespan None (exec base_hooks [Start] (node_loop (Some 7))))) = None \<and>
   fst (extend_lifespan (Some 5) (exec base_hooks [Start] (node_loop None))) = Some 5 \<and>
   (\<forall>v::unit world. fst (on_play base_hooks v) = Returns) \<and>
   (\<exists>wa wb wc.
      run_until_idle base_hooks 2 (exec base_hooks [Start] (node_loop (Some 2))) = Some wa \<and>
      kill wa \<and> get_step wa = 2 \<and>
      extend_lifespan (Some 2) wa = (Some 4, wb) \<and>
      get_lifespan wb = Some 4 \<and> \<not> kill wb \<and>
      is_running (exec base_hooks [Play] wb) \<and> get_step (exec base_hooks [Play] wb) = 3 \<and>
      run_until_idle base_hooks 2 (exec base_hooks [Play] wb) = Some wc \<and>
      get_step wc = 4 \<and> \<not> is_running wc \<and> kill wc)"
proof -
  have ret: "\<forall>v::unit world. fst (on_play base_hooks v) = Returns"
    by (simp add: base_hooks_def)
  have fresh: "\<not> initialized (node_loop None)"
    by (simp add: node_loop_def new_StepLoop_def)
  have started: "initialized (exec base_hooks [Start] (node_loop l))"
    "lifespan (exec base_hooks [Start] (node_loop l)) = l" for l
    by (simp_all add: exec_Start start_eq init_eq run_flags run_frame node_loop_def new_StepLoop_def)
  from extend_lifespan_effect [where w = "node_loop None" and d = "Some 2", THEN conjunct1] fresh
  have a: "extend_lifespan (Some 2) (node_loop None) = (None, node_loop None)"
    by simp
  from extend_lifespan_effect [where w = "exec base_hooks [Start] (node_loop (Some 7))",
      THEN conjunct2, THEN conjunct1] started
  have b: "extend_lifespan None (exec base_hooks [Start] (node_loop (Some 7))) =
      (None, (exec base_hooks [Start] (node_loop (Some 7)))\<lparr>lifespan := None\<rparr>)"
    by simp
  from extend_lifespan_effect [where w = "exec base_hooks [Start] (node_loop None)" and k = 5,
      THEN conjunct2, THEN conjunct2, THEN conjunct1] started
  have c: "fst (extend_lifespan (Some 5) (exec base_hooks [Start] (node_loop None))) = Some 5"
    by simp
  from extend_lifespan_effect [where H = "base_hooks :: unit hooks" and raf = False and ?t0.0 = 0
      and ?h0.0 = "()" and r = 60 and RAF = False,
      THEN conjunct2, THEN conjunct2, THEN conjunct2] ret
  have d: "\<exists>wa wb wc.
      run_until_idle base_hooks 2 (exec base_hooks [Start] (node_loop (Some 2))) = Some wa \<and>
      kill wa \<and> get_step wa = 2 \<and>
      extend_lifespan (Some 2) wa = (Some 4, wb) \<and>
      get_lifespan wb = Some 4 \<and> \<not> kill wb \<and>
      is_running (exec base_hooks [Play] wb) \<and> get_step (exec base_hooks [Play] wb) = 3 \<and>
      run_until_idle base_hooks 2 (exec base_hooks [Play] wb) = Some wc \<and>
      get_step wc = 4 \<and> \<not> is_running wc \<and> kill wc"
    unfolding node_loop_def by simp
  from fresh a started b c ret d show ?thesis
    by (simp add: get_lifespan_def)
qed

section \<open>Reviving a finished loop\<close>

text \<open>
  Claim C10. The revival by \<^verbatim>\<open>extend_lifespan\<close> does not ask why the loop terminated. Let
  an initialized, not terminated loop be ended by \<^verbatim>\<open>finish()\<close>, and let
  \<^verbatim>\<open>extend_lifespan(d)\<close> with a number \<open>d\<close> give a lifespan above the step number. Then
  \<^verbatim>\<open>finish()\<close> had set the termination flag, \<^verbatim>\<open>extend_lifespan\<close> returns the new lifespan
  and clears the flag, and a following \<^verbatim>\<open>play()\<close> (its \<^verbatim>\<open>on_play()\<close> returning) resumes the
  cycling without a restart: it calls \<^verbatim>\<open>on_play\<close> and the hooks of one cycle at the step
  number the loop had, advances the step number by one, leaves the loop running and
  requests the next cycle.
\<close>

theorem finish_then_extend_revives:
  fixes w :: "'h world" and H :: "'h hooks" and d :: int
  defines "wfin \<equiv> snd (finish H w)"
  defines "l \<equiv> (case lifespan w of None \<Rightarrow> 0 | Some n \<Rightarrow> n) + d"
  defines "wext \<equiv> snd (extend_lifespan (Some d) wfin)"
  assumes "initialized w" and "\<not> kill w" and "int (step_num w) < l"
    and "\<forall>v. fst (on_play H v) = Returns"
  shows "kill wfin \<and> \<not> is_running wfin \<and> get_step wfin = get_step w \<and>
         fst (extend_lifespan (Some d) wfin) = Some l \<and> get_lifespan wext = Some l \<and>
         \<not> kill wext \<and>
         is_running (snd (play H wext)) \<and>
         get_step (snd (play H wext)) = Suc (get_step w) \<and>
         trace (snd (play H wext)) =
           trace wext @ [(On_play, get_step w), (Background, get_step w), (Before, get_step w),
                       (Step, get_step w), (After, get_step w)] \<and>
         (\<exists>t. pending (snd (play H wext)) = pending wext @ [t])"
proof -
  have wfin: "kill wfin" "\<not> running wfin" "initialized wfin" "step_num wfin = step_num w"
    "lifespan wfin = lifespan w"
    using assms(4,5) by (simp_all add: wfin_def finish_eq term_stage_eq)
  have oz: "or_zero (lifespan w) = (case lifespan w of None \<Rightarrow> 0 | Some n \<Rightarrow> n)"
    by (simp add: or_zero_def split: option.splits)
  have ext: "extend_lifespan (Some d) wfin = (Some l, wfin\<lparr>lifespan := Some l, kill := False\<rparr>)"
    using wfin assms(6) by (simp add: extend_lifespan_def Let_def oz l_def)
  then have wext: "initialized wext" "\<not> running wext" "\<not> kill wext" "step_num wext = step_num w"
    "lifespan wext = Some l"
    using wfin by (simp_all add: wext_def)
  then have nc: "\<not> check_for_end_trigger wext"
    using assms(6) by (simp add: check_for_end_trigger_def truthy_number_def)
  from play_cycle [OF wext(1,2,3) nc assms(7)] wfin ext wext show ?thesis
    by (simp add: is_running_def get_step_def get_lifespan_def)
qed

theorem finish_then_extend_revives_witness:
  "initialized (exec base_hooks [Start] (node_loop None)) \<and>
   \<not> kill (exec base_hooks [Start] (node_loop None)) \<and>
   int (step_num (exec base_hooks [Start] (node_loop None))) < 0 + 5 \<and>
   (\<forall>v::unit world. fst (on_play base_hooks v) = Returns) \<and>
   kill (snd (finish base_hooks (exec base_hooks [Start] (node_loop None)))) \<and>
   \<not> kill (snd (extend_lifespan (Some 5)
              (snd (finish base_hooks (exec base_hooks [Start] (node_loop None)))))) \<and>
   is_running (snd (play base_hooks (snd (extend_lifespan (Some 5)
              (snd (finish base_hooks (exec base_hooks [Start] (node_loop None)))))))) \<and>
   get_step (snd (play base_hooks (snd (extend_lifespan (Some 5)
              (snd (finish base_hooks (exec base_hooks [Start] (node_loop None)))))))) = 2"
proof -
  have ret: "\<forall>v::unit world. fst (on_play base_hooks v) = Returns"
    by (simp add: base_hooks_def)
  have started: "initialized (exec base_hooks [Start] (node_loop None))"
    "\<not> kill (exec base_hooks [Start] (node_loop None))"
    "lifespan (exec base_hooks [Start] (node_loop None)) = None"
    "step_num (exec base_hooks [Start] (node_loop None)) = 1"
    by (simp_all add: exec_Start start_eq init_eq run_flags run_frame run_step_num
        check_for_end_trigger_def truthy_number_def node_loop_def new_StepLoop_def)
  from finish_then_extend_revives [where w = "exec base_hooks [Start] (node_loop None)"
      and H = base_hooks and d = 5] started ret
  show ?thesis
    by (simp add: get_step_def)
qed

section \<open>Exceptions of the hooks\<close>

text \<open>
  The hooks called inside \<^verbatim>\<open>try\<close> (\<^verbatim>\<open>initial\<close>, \<^verbatim>\<open>before\<close>, \<^verbatim>\<open>step\<close>, \<^verbatim>\<open>after\<close>, \<^verbatim>\<open>final\<close>) are
  isolated, whatever the host: \<^verbatim>\<open>start()\<close>, \<^verbatim>\<open>finish()\<close> and the scheduled callbacks return
  normally, and a cycle calls all its hooks, counts the step and requests the next cycle.
\<close>

theorem guarded_hooks_isolated:
  "fst (start H w) = Done \<and> fst (finish H w) = Done \<and>
   fst (timeout_fires H i w) = Done \<and> fst (frame_fires H i ts w) = Done \<and>
   (running w \<and> \<not> check_for_end_trigger w \<longrightarrow>
      trace (snd (run H ts w)) =
        trace w @ [(Background, step_num w), (Before, step_num w), (Step, step_num w),
                   (After, step_num w)] \<and>
      step_num (snd (run H ts w)) = Suc (step_num w) \<and>
      (\<exists>t. pending (snd (run H ts w)) = pending w @ [t]))"
  by (simp add: start_Done finish_Done timeout_fires_Done frame_fires_Done run_trace
      run_step_num run_pending)

theorem guarded_hooks_isolated_witness:
  "fst (start faulty_hooks (node_loop None)) = Done \<and>
   running (exec base_hooks [Start] (node_loop None)) \<and>
   \<not> check_for_end_trigger (exec base_hooks [Start] (node_loop None)) \<and>
   step_num (snd (run base_hooks 20 (exec base_hooks [Start] (node_loop None)))) =
     Suc (step_num (exec base_hooks [Start] (node_loop None)))"
proof -
  let ?ws = "exec base_hooks [Start] (node_loop None)"
  have ws: "running ?ws" "\<not> check_for_end_trigger ?ws"
    unfolding started_loop check_for_end_trigger_def truthy_number_def by simp_all
  from guarded_hooks_isolated [of faulty_hooks "node_loop None"]
    guarded_hooks_isolated [of base_hooks ?ws _ 20] ws
  show ?thesis by blast
qed

text \<open>
  Claim C2, for \<^verbatim>\<open>on_pause\<close> and \<^verbatim>\<open>on_play\<close>. These two hooks are called outside any \<^verbatim>\<open>try\<close>.
  When \<^verbatim>\<open>pause()\<close> is called in a valid state and \<^verbatim>\<open>on_pause()\<close> throws, the exception leaves
  \<^verbatim>\<open>pause()\<close>. When \<^verbatim>\<open>play()\<close> is called in a valid state and \<^verbatim>\<open>on_play()\<close> throws, the
  exception leaves \<^verbatim>\<open>play()\<close>, and \<^verbatim>\<open>_run\<close> is not reached: the loop is marked running, but no
  hook of a cycle was called, the step number is as before and no next cycle was requested.
\<close>

theorem bare_hook_exception_escapes:
  fixes w :: "'h world" and H :: "'h hooks"
  defines "wp \<equiv> cancel_next_step (w\<lparr>running := False, paused := True\<rparr>)"
  defines "wr \<equiv> w\<lparr>running := True, paused := False,
                      startTime := now w - real (step_num w) * interval w\<rparr>"
  shows
  "(initialized w \<and> running w \<and> \<not> kill w \<and> fst (on_pause H wp) = Throws x \<longrightarrow>
      fst (pause H w) = Raised x \<and> snd (pause H w) = hooked On_pause (on_pause H) wp) \<and>
   (initialized w \<and> \<not> running w \<and> \<not> kill w \<and> fst (on_play H wr) = Throws x \<longrightarrow>
      fst (play H w) = Raised x \<and> snd (play H w) = hooked On_play (on_play H) wr \<and>
      is_running (snd (play H w)) \<and>
      get_step (snd (play H w)) = get_step w \<and>
      pending (snd (play H w)) = pending w \<and>
      trace (snd (play H w)) = trace w @ [(On_play, get_step w)])"
  by (simp add: pause_eq play_eq call_hook_hooked wp_def wr_def is_running_def get_step_def)

theorem bare_hook_exception_escapes_witness:
  "fst (pause faulty_hooks (exec faulty_hooks [Start] (node_loop None))) = Raised ''on_pause failed'' \<and>
   fst (play faulty_hooks (exec faulty_hooks [Start, Pause] (node_loop None))) = Raised ''on_play failed'' \<and>
   is_running (snd (play faulty_hooks (exec faulty_hooks [Start, Pause] (node_loop None)))) \<and>
   get_step (snd (play faulty_hooks (exec faulty_hooks [Start, Pause] (node_loop None)))) = 1 \<and>
   pending (snd (play faulty_hooks (exec faulty_hooks [Start, Pause] (node_loop None)))) = []"
proof -
  let ?ws = "exec faulty_hooks [Start] (node_loop None)"
  let ?wp = "exec faulty_hooks [Start, Pause] (node_loop None)"
  have thr: "fst (on_pause faulty_hooks v) = Throws ''on_pause failed''"
    "fst (on_play faulty_hooks v) = Throws ''on_play failed''" for v
    by (simp_all add: faulty_hooks_def)
  have ws: "initialized ?ws \<and> running ?ws \<and> \<not> kill ?ws"
    by (simp add: faulty_started)
  have wp: "initialized ?wp \<and> \<not> running ?wp \<and> \<not> kill ?wp"
    "get_step ?wp = 1" "pending ?wp = []"
    by (simp_all add: faulty_paused get_step_def)
  from bare_hook_exception_escapes [where w = ?ws and H = faulty_hooks
      and x = "''on_pause failed''", THEN conjunct1] thr(1) ws
  have a: "fst (pause faulty_hooks ?ws) = Raised ''on_pause failed''"
    by blast
  from bare_hook_exception_escapes [where w = ?wp and H = faulty_hooks
      and x = "''on_play failed''", THEN conjunct2] thr(2) wp(1)
  have b: "fst (play faulty_hooks ?wp) = Raised ''on_play failed'' \<and>
      is_running (snd (play faulty_hooks ?wp)) \<and>
      get_step (snd (play faulty_hooks ?wp)) = get_step ?wp \<and>
      pending (snd (play faulty_hooks ?wp)) = pending ?wp"
    by blast
  from a b wp(2,3) show ?thesis by simp
qed

section \<open>The running and paused flags\<close>

text \<open>
  Claim C3, for \<^verbatim>\<open>start()\<close> on a paused loop. \<^verbatim>\<open>start()\<close> sets \<open>running\<close> and never clears
  \<open>paused\<close> (\<^verbatim>\<open>play()\<close> and the termination stage do). Called on a paused loop whose lifespan
  is unset or not negative, it leaves \<^verbatim>\<open>is_running()\<close> and \<^verbatim>\<open>is_paused()\<close> both true; the
  sequence \<^verbatim>\<open>start(); pause(); start()\<close> on a fresh loop reaches such a state.
\<close>

theorem start_keeps_paused:
  "paused w \<and> (case lifespan w of None \<Rightarrow> True | Some l \<Rightarrow> 0 \<le> l) \<longrightarrow>
     is_running (snd (start H w)) \<and> is_paused (snd (start H w))"
  by (auto simp add: start_eq init_eq run_flags check_for_end_trigger_def truthy_number_def
      is_running_def is_paused_def split: option.splits)

theorem start_keeps_paused_witness:
  "paused (exec base_hooks [Start, Pause] (node_loop None)) \<and>
   is_running (exec base_hooks [Start, Pause, Start] (node_loop None)) \<and>
   is_paused (exec base_hooks [Start, Pause, Start] (node_loop None))"
proof -
  have e: "exec base_hooks [Start, Pause, Start] (node_loop None) =
      settle (snd (start base_hooks (exec base_hooks [Start, Pause] (node_loop None))))"
    using exec_snoc [of base_hooks "[Start, Pause]" Start "node_loop None"] by simp
  have p: "paused (exec base_hooks [Start, Pause] (node_loop None))"
    "lifespan (exec base_hooks [Start, Pause] (node_loop None)) = None"
    by (simp_all add: paused_loop)
  from start_keeps_paused [of "exec base_hooks [Start, Pause] (node_loop None)" base_hooks] p
  show ?thesis
    by (simp add: e is_running_def is_paused_def)
qed

text \<open>
  A terminated loop is idle: in every state a loop can reach from its construction, a set
  termination flag means that the loop is neither running nor paused.
\<close>

theorem terminated_loop_is_idle:
  "kill (exec H es (new_StepLoop raf t0 h0 r l RAF)) \<longrightarrow>
     \<not> is_running (exec H es (new_StepLoop raf t0 h0 r l RAF)) \<and>
     \<not> is_paused (exec H es (new_StepLoop raf t0 h0 r l RAF))"
  unfolding is_running_def is_paused_def
proof (rule exec_invariant [where Q = "\<lambda>e. True"])
  show "kill (new_StepLoop raf t0 h0 r l RAF) \<longrightarrow>
      \<not> running (new_StepLoop raf t0 h0 r l RAF) \<and> \<not> paused (new_StepLoop raf t0 h0 r l RAF)"
    by (simp add: new_StepLoop_def)
  show "kill (dispatch H e v) \<longrightarrow> \<not> running (dispatch H e v) \<and> \<not> paused (dispatch H e v)"
    if "kill v \<longrightarrow> \<not> running v \<and> \<not> paused v" for e v
    using that by (rule idle_dispatch)
  show "list_all (\<lambda>e. True) es"
    by (simp add: list_all_iff)
qed

theorem terminated_loop_is_idle_witness:
  "kill (exec base_hooks [Start, Finish] (node_loop None)) \<and>
   \<not> is_running (exec base_hooks [Start, Finish] (node_loop None)) \<and>
   \<not> is_paused (exec base_hooks [Start, Finish] (node_loop None))"
proof -
  have k: "kill (exec base_hooks [Start, Finish] (node_loop None))"
    unfolding finished_loop by simp
  from terminated_loop_is_idle [of base_hooks "[Start, Finish]" False 0 "()" 60 None False] k
  show ?thesis
    unfolding node_loop_def by blast
qed

section \<open>A loop that is not running\<close>

text \<open>
  While a loop is not running (paused, say), a callback that fires late, a frame or the
  passing of time changes neither the step number nor the log of hook calls: the step number
  is frozen until \<^verbatim>\<open>play()\<close> or \<^verbatim>\<open>start()\<close>.
\<close>

theorem paused_loop_keeps_step:
  "\<not> running w \<longrightarrow>
     get_step (dispatch H (Timeout_fires i) w) = get_step w \<and>
     get_step (dispatch H (Frame_fires i ts) w) = get_step w \<and>
     get_step (dispatch H (Advance d) w) = get_step w \<and>
     trace (dispatch H (Timeout_fires i) w) = trace w \<and>
     trace (dispatch H (Frame_fires i ts) w) = trace w"
  by (simp add: get_step_def timeout_fires_def frame_fires_def run_eq clearTimeout_def
      cancelAnimationFrame_def split: option.splits)

theorem paused_loop_keeps_step_witness:
  "\<not> running (exec base_hooks [Start, Set_use_RAF True, Pause] (node_loop None)) \<and>
   pending (exec base_hooks [Start, Set_use_RAF True, Pause] (node_loop None)) = [Timeout 1 0 (50 / 3)] \<and>
   get_step (dispatch base_hooks (Timeout_fires 1)
      (exec base_hooks [Start, Set_use_RAF True, Pause] (node_loop None))) =
     get_step (exec base_hooks [Start, Set_use_RAF True, Pause] (node_loop None))"
proof -
  have p: "\<not> running (exec base_hooks [Start, Set_use_RAF True, Pause] (node_loop None))"
    "pending (exec base_hooks [Start, Set_use_RAF True, Pause] (node_loop None)) = [Timeout 1 0 (50 / 3)]"
    by (simp_all add: eval_defs)
  from paused_loop_keeps_step [of "exec base_hooks [Start, Set_use_RAF True, Pause] (node_loop None)"
      base_hooks 1] p
  show ?thesis by blast
qed

section \<open>Cancelling the pending callback\<close>

text \<open>
  Claim C4, evaluated. \<^verbatim>\<open>_cancel_next_step\<close> chooses the primitive by the current value of
  the toggle, not by how the pending callback was requested, and \<^verbatim>\<open>start()\<close> cancels
  nothing. So a timer set under the fixed-interval strategy is still pending after
  \<^verbatim>\<open>set_use_RAF(true); pause()\<close> and after \<^verbatim>\<open>set_use_RAF(true); finish()\<close>; a following
  \<^verbatim>\<open>play()\<close> then leaves two callbacks pending; a loop constructed with the toggle on where
  \<^verbatim>\<open>requestAnimationFrame\<close> does not exist schedules timers that \<^verbatim>\<open>finish()\<close> never clears; and
  \<^verbatim>\<open>start(); start()\<close> leaves two timers pending.
\<close>

theorem pending_tick_survives:
  "pending (exec base_hooks [Start, Set_use_RAF True, Pause] (node_loop None)) =
     [Timeout 1 0 (50 / 3)] \<and>
   pending (exec base_hooks [Start, Set_use_RAF True, Finish] (browser_loop None)) =
     [Timeout 1 0 (50 / 3)] \<and>
   pending (exec base_hooks [Start, Set_use_RAF True, Pause, Play] (browser_loop None)) =
     [Timeout 1 0 (50 / 3), Frame 2] \<and>
   pending (exec base_hooks [Start, Finish] (new_StepLoop False 0 () 60 None True)) =
     [Timeout 1 0 (50 / 3)] \<and>
   pending (exec base_hooks [Start, Start] (node_loop None)) =
     [Timeout 1 0 (50 / 3), Timeout 2 0 (50 / 3)]"
  by (simp add: eval_defs)

theorem pending_tick_survives_witness:
  "length (pending (exec base_hooks [Start, Set_use_RAF True, Pause] (node_loop None))) = 1 \<and>
   length (pending (exec base_hooks [Start, Set_use_RAF True, Pause, Play] (browser_loop None))) = 2 \<and>
   length (pending (exec base_hooks [Start, Start] (node_loop None))) = 2"
  using pending_tick_survives by simp

section \<open>The order of the hooks in a cycle\<close>

text \<open>
  Claim C5. In every state a loop can reach from its construction (by calls of the public
  methods, fired callbacks and passing time, with any host), the calls of \<^verbatim>\<open>before\<close>,
  \<^verbatim>\<open>step\<close> and \<^verbatim>\<open>after\<close> since the last initialization are, in this order,
  \<open>before, step, after\<close> of cycle 0, then of cycle 1, and so on up to the step number, and
  inside each of the three calls of cycle \<open>i\<close> \<^verbatim>\<open>get_step()\<close> is \<open>i\<close>: the step number
  counts the completed cycles and is advanced only after the third call. One cycle alone:
  \<^verbatim>\<open>_run\<close> on a running loop that is not at its end calls \<^verbatim>\<open>background\<close>, \<^verbatim>\<open>before\<close>,
  \<^verbatim>\<open>step\<close>, \<^verbatim>\<open>after\<close> in this order, each seeing the step number the cycle began with,
  and leaves the step number one higher.
\<close>

theorem cycle_hooks_in_order:
  "cycles_seen (trace (exec H es (new_StepLoop raf t0 h0 r l RAF))) =
     concat (map cycle_calls [0..<get_step (exec H es (new_StepLoop raf t0 h0 r l RAF))]) \<and>
   (running w \<and> \<not> check_for_end_trigger w \<longrightarrow>
      trace (snd (run H ts w)) =
        trace w @ [(Background, get_step w), (Before, get_step w), (Step, get_step w),
                   (After, get_step w)] \<and>
      get_step (snd (run H ts w)) = get_step w + 1)"
  using in_order_exec [of H es raf t0 h0 r l RAF]
  by (simp add: in_order_def get_step_def run_trace run_step_num)

theorem cycle_hooks_in_order_witness:
  "cycles_seen (trace (exec base_hooks [Start, Advance 20, Timeout_fires 1] (node_loop None))) =
     [(Before, 0), (Step, 0), (After, 0), (Before, 1), (Step, 1), (After, 1)] \<and>
   running (exec base_hooks [Start] (node_loop None)) \<and>
   \<not> check_for_end_trigger (exec base_hooks [Start] (node_loop None)) \<and>
   trace (snd (run base_hooks 20 (exec base_hooks [Start] (node_loop None)))) =
     trace (exec base_hooks [Start] (node_loop None)) @
       [(Background, 1), (Before, 1), (Step, 1), (After, 1)] \<and>
   get_step (snd (run base_hooks 20 (exec base_hooks [Start] (node_loop None)))) = 2"
proof -
  let ?ws = "exec base_hooks [Start] (node_loop None)"
  have n: "get_step (exec base_hooks [Start, Advance 20, Timeout_fires 1] (node_loop None)) = 2"
    unfolding late_cycle get_step_def by simp
  have two: "[0..<2] = [0, Suc 0]"
    by (simp add: upt_rec)
  have ws: "running ?ws" "\<not> check_for_end_trigger ?ws" "get_step ?ws = 1"
    unfolding started_loop check_for_end_trigger_def truthy_number_def get_step_def by simp_all
  from cycle_hooks_in_order [of base_hooks "[Start, Advance 20, Timeout_fires 1]" False 0 "()" 60
      None False ?ws 20] n two ws
  show ?thesis
    by (simp add: node_loop_def cycle_calls_def)
qed

section \<open>The delay of the fixed-interval strategy\<close>

text \<open>
  Claim C6. Take any execution from the construction of a loop with a positive rate in
  which \<^verbatim>\<open>set_sps\<close> is given positive rates only, and any task of it. Then the interval is
  \<open>1000 / sps\<close>, and every timer the task adds to the pending callbacks was set at the
  current time with the delay \<open>max 0 (startTime + step_num * (1000 / sps) - now)\<close>, the
  values being those the scheduling decision read (it is the last statement of its task).
  The decision itself: on a running loop for which the display-synchronized strategy is
  not both chosen and available, \<^verbatim>\<open>_request_next_step\<close> adds exactly one timer, with the
  delay \<open>max 0 (startTime + step_num * interval - now)\<close>: an absolute schedule anchored at
  the start time, not a chain of relative delays.
\<close>

theorem fixed_interval_delay:
  fixes H :: "'h hooks" and es :: "event list" and e :: event
    and raf :: bool and t0 :: real and h0 :: 'h and r :: real and l :: "int option" and RAF :: bool
  assumes "0 < r" and "list_all rate_ok (es @ [e])"
  defines "w \<equiv> exec H es (new_StepLoop raf t0 h0 r l RAF)"
  defines "w' \<equiv> dispatch H e w"
  shows "interval w' = 1000 / sps w' \<and>
     (Timeout i t d \<in> set (pending w') \<and> Timeout i t d \<notin> set (pending w) \<longrightarrow>
        t = now w' \<and>
        d = max 0 (startTime w' + real (step_num w') * (1000 / sps w') - now w')) \<and>
     (running v \<and> \<not> (RAFActive v \<and> RAFAvailable v) \<longrightarrow>
        pending (request_next_step ts v) =
          pending v @
            [Timeout (next_handle v) (now v)
               (max 0 (startTime v + real (step_num v) * interval v - now v))])"
proof -
  have w': "w' = exec H (es @ [e]) (new_StepLoop raf t0 h0 r l RAF)"
    by (simp add: w'_def w_def exec_snoc)
  have rate: "interval w' = 1000 / sps w'"
    unfolding w' using assms(1,2) by (intro rate_exec [THEN conjunct1])
  have timer: "t = now w' \<and> d = max 0 (startTime w' + real (step_num w') * (1000 / sps w') - now w')"
    if "Timeout i t d \<in> set (pending w') \<and> Timeout i t d \<notin> set (pending w)"
  proof -
    from that have "t = now w' \<and> d = max 0 (startTime w' + real (step_num w') * interval w' - now w')"
      unfolding w'_def using dispatch_new_timer [of i t d H e w] by simp
    then show ?thesis by (simp only: rate)
  qed
  have decision: "pending (request_next_step ts v) =
          pending v @
            [Timeout (next_handle v) (now v)
               (max 0 (startTime v + real (step_num v) * interval v - now v))]"
    if "running v \<and> \<not> (RAFActive v \<and> RAFAvailable v)"
    using that by (simp add: request_pending)
  from rate timer decision show ?thesis by blast
qed

theorem fixed_interval_delay_witness:
  "0 < (60::real) \<and> list_all rate_ok ([Start, Advance 20] @ [Timeout_fires 1]) \<and>
   Timeout 2 20 (40 / 3) \<in> set (pending (dispatch base_hooks (Timeout_fires 1)
        (exec base_hooks [Start, Advance 20] (node_loop None)))) \<and>
   Timeout 2 20 (40 / 3) \<notin> set (pending (exec base_hooks [Start, Advance 20] (node_loop None))) \<and>
   (40 / 3 :: real) =
     max 0 (startTime (dispatch base_hooks (Timeout_fires 1)
                         (exec base_hooks [Start, Advance 20] (node_loop None))) +
            real (step_num (dispatch base_hooks (Timeout_fires 1)
                         (exec base_hooks [Start, Advance 20] (node_loop None)))) *
              (1000 / sps (dispatch base_hooks (Timeout_fires 1)
                         (exec base_hooks [Start, Advance 20] (node_loop None)))) -
            now (dispatch base_hooks (Timeout_fires 1)
                         (exec base_hooks [Start, Advance 20] (node_loop None)))) \<and>
   running (exec base_hooks [Start, Advance 20] (node_loop None)) \<and>
   \<not> RAFActive (exec base_hooks [Start, Advance 20] (node_loop None)) \<and>
   pending (request_next_step 20 (exec base_hooks [Start, Advance 20] (node_loop None))) =
     [Timeout 1 0 (50 / 3), Timeout 2 20 0]"
proof -
  let ?w = "exec base_hooks [Start, Advance 20] (node_loop None)"
  let ?w' = "dispatch base_hooks (Timeout_fires 1) ?w"
  have ok: "0 < (60::real)" "list_all rate_ok ([Start, Advance 20] @ [Timeout_fires 1])"
    by simp_all
  have "?w' = exec base_hooks [Start, Advance 20, Timeout_fires 1] (node_loop None)"
    using exec_snoc [of base_hooks "[Start, Advance 20]" "Timeout_fires 1" "node_loop None"] by simp
  then have new: "Timeout 2 20 (40 / 3) \<in> set (pending ?w')"
    unfolding late_cycle by simp
  have old: "Timeout 2 20 (40 / 3) \<notin> set (pending ?w)"
    unfolding late_loop by simp
  from fixed_interval_delay [OF ok, of base_hooks False 0 "()" None False 2 20 "40 / 3",
      THEN conjunct2, THEN conjunct1] new old
  have "(40 / 3 :: real) =
     max 0 (startTime ?w' + real (step_num ?w') * (1000 / sps ?w') - now ?w')"
    unfolding node_loop_def by blast
  moreover have run: "running ?w" "\<not> RAFActive ?w"
    unfolding late_loop by simp_all
  moreover from fixed_interval_delay [OF ok, of base_hooks False 0 "()" None False _ _ _ ?w 20,
      THEN conjunct2, THEN conjunct2] run
  have "pending (request_next_step 20 ?w) =
      pending ?w @
        [Timeout (next_handle ?w) (now ?w)
           (max 0 (startTime ?w + real (step_num ?w) * interval ?w - now ?w))]"
    by blast
  then have "pending (request_next_step 20 ?w) = [Timeout 1 0 (50 / 3), Timeout 2 20 0]"
    unfolding late_loop by simp
  ultimately show ?thesis using ok new old by blast
qed

end
